theory Spec2Isabelle
  imports Main "HOL-Library.Word"
begin

section \<open>The lido resource pool (lido.go)\<close>

text \<open>
  A shallow embedding of the Go package \<^verbatim>\<open>lido\<close>: a pool that builds values with a
  caller-supplied factory, up to a fixed size, and hands them out through a buffered
  channel.

  Scope of the model. The pieces of the source that run without a gap (\<open>addNew\<close> under
  the pool's mutex, the \<^verbatim>\<open>select\<close> of \<open>Next\<close>, \<open>Restore\<close>, \<open>Remove\<close>) are atomic steps on
  the shared state. A call of \<open>Next\<close> is not atomic: it takes a schedule that says what
  other callers do between its test of \<^verbatim>\<open>len(p.items)\<close> and \<open>addNew\<close>, what they do
  between \<open>addNew\<close> and the \<^verbatim>\<open>select\<close>, and whether the \<^verbatim>\<open>select\<close> ends through its
  timer case. Time itself is not modelled. A panic is a fault value; the pool is left as
  the source leaves it when the panic unwinds. The mutexes are not represented: they
  would matter only where a caller blocks while holding one, and no state that a pool
  built by \<open>New\<close> reaches lets a send block (lemma \<open>act_never_blocks\<close>).
\<close>

subsection \<open>Data\<close>

text \<open>Go's \<^verbatim>\<open>int\<close> (on a 64-bit platform) and \<^verbatim>\<open>time.Duration\<close> (an int64 of nanoseconds).\<close>

type_synonym int64 = "64 word"

text \<open>
  Values of the interface type \<^verbatim>\<open>error\<close>, compared by identity as \<^verbatim>\<open>==\<close> does:
  the package variable \<^verbatim>\<open>ErrTimeout\<close>, and every other error value, named by a tag.
  A nil error is \<open>None\<close> of \<open>error option\<close>.
\<close>

datatype error = ErrTimeout | AppError nat

text \<open>How a call can end other than by returning normally.\<close>

datatype fault = Returned error | Panicked string | Blocked

text \<open>A value of type \<^verbatim>\<open>interface{}\<close>: \<open>None\<close> is nil.\<close>

type_synonym 'v iface = "'v option"

text \<open>
  \<^verbatim>\<open>chan interface{}\<close> with a buffer: the queued values, oldest first, the capacity
  given to \<^verbatim>\<open>make\<close>, and whether \<^verbatim>\<open>close\<close> has been called.
\<close>

record 'v chan =
  buf :: "'v iface list"
  cap :: nat
  chan_closed :: bool

text \<open>
  The factory \<^verbatim>\<open>func() (interface{}, error)\<close> is a closure over state of the caller:
  a function from that state \<open>'x\<close> to its two results and the new state.
\<close>

type_synonym ('v, 'x) factory = "'x \<Rightarrow> ('v iface \<times> error option) \<times> 'x"

record ('v, 'x) Options =
  opt_New :: "('v, 'x) factory option"
  opt_Size :: int64
  opt_Timeout :: int64

record ('v, 'x) Pool =
  items :: "'v chan"
  newFn :: "('v, 'x) factory"
  maxSize :: int64
  curSize :: int64
  timeout :: int64

text \<open>
  An \<^verbatim>\<open>Item\<close>; the field \<^verbatim>\<open>value\<close> is \<open>val\<close> here. Its two closures \<^verbatim>\<open>restore\<close> and
  \<^verbatim>\<open>remove\<close> capture the pool and the value; they are the functions \<open>restore\<close> and
  \<open>remove\<close> below.
\<close>

record 'v Item =
  val :: "'v iface"
  closed :: bool

text \<open>
  The program state: the pool, the Items that \<^verbatim>\<open>Next\<close> has allocated (a \<^verbatim>\<open>*Item\<close> is
  an index into this list), and the caller's state that the factory reads and writes.
  Two fields are instrumentation and have no counterpart in the source:
  \<open>factory_calls\<close> counts the invocations of the factory, and \<open>close_log\<close> lists the
  values whose \<^verbatim>\<open>Close()\<close> method has been invoked, in order.
\<close>

record ('v, 'x) world =
  pool :: "('v, 'x) Pool"
  issued :: "'v Item list"
  ext :: 'x
  factory_calls :: nat
  close_log :: "'v iface list"

subsection \<open>Channel operations\<close>

text \<open>
  \<^verbatim>\<open>c <- v\<close>: panics on a closed channel, blocks while the buffer is full, and otherwise
  appends.
\<close>

definition chan_send :: "'v chan \<Rightarrow> 'v iface \<Rightarrow> fault + 'v chan" where
  "chan_send c v =
     (if chan_closed c then Inl (Panicked ''send on closed channel'')
      else if cap c \<le> length (buf c) then Inl Blocked
      else Inr (c\<lparr>buf := buf c @ [v]\<rparr>))"

subsection \<open>Construction and accessors\<close>

definition Second :: int64 where
  "Second = 1000000000"

text \<open>
  \<^verbatim>\<open>New\<close>. The builtin \<^verbatim>\<open>make(chan interface{}, n)\<close> panics when \<open>n\<close> is larger than
  the buffer the runtime can allocate; that platform-dependent bound is the parameter
  \<open>lim\<close>.
\<close>

definition New :: "int \<Rightarrow> ('v, 'x) Options \<Rightarrow> fault + ('v, 'x) Pool" where
  "New lim opts =
     (case opt_New opts of
        None \<Rightarrow> Inl (Panicked ''pool: new func must not be nil'')
      | Some f \<Rightarrow>
          (let sz = (if opt_Size opts \<le>s 0 then 1 else opt_Size opts);
               tmo = (if opt_Timeout opts \<le>s 0 then 30 * Second else opt_Timeout opts)
           in if lim < sint sz then Inl (Panicked ''makechan: size out of range'')
              else Inr \<lparr>items = \<lparr>buf = [], cap = nat (sint sz), chan_closed = False\<rparr>,
                        newFn = f, maxSize = sz, curSize = 0, timeout = tmo\<rparr>))"

text \<open>The state of a program that has just built the pool \<open>p\<close>.\<close>

definition start :: "('v, 'x) Pool \<Rightarrow> 'x \<Rightarrow> ('v, 'x) world" where
  "start p x = \<lparr>pool = p, issued = [], ext = x, factory_calls = 0, close_log = []\<rparr>"

definition Size :: "('v, 'x) Pool \<Rightarrow> int64" where
  "Size p = maxSize p"

definition Timeout :: "('v, 'x) Pool \<Rightarrow> int64" where
  "Timeout p = timeout p"

subsection \<open>Acquisition\<close>

text \<open>\<^verbatim>\<open>addNew\<close>; the result is the returned error (\<open>None\<close> for nil) or the fault.\<close>

definition addNew :: "('v, 'x) world \<Rightarrow> fault option \<times> ('v, 'x) world" where
  "addNew w =
     (let p = pool w in
      if maxSize p \<le>s curSize p then (None, w)
      else
        (case newFn p (ext w) of
           ((v, err), x') \<Rightarrow>
             (let w1 = w\<lparr>ext := x', factory_calls := Suc (factory_calls w)\<rparr> in
              case err of
                Some e \<Rightarrow> (Some (Returned e), w1)
              | None \<Rightarrow>
                  (case chan_send (items p) v of
                     Inl f \<Rightarrow> (Some f, w1)
                   | Inr c \<Rightarrow>
                       (None, w1\<lparr>pool := p\<lparr>items := c, curSize := curSize p + 1\<rparr>\<rparr>)))))"

text \<open>
  The \<^verbatim>\<open>select\<close> of \<open>Next\<close>, with its two cases \<^verbatim>\<open>v := <-p.items\<close> and
  \<^verbatim>\<open><-time.After(p.timeout)\<close>. The timer starts when the \<^verbatim>\<open>select\<close> is entered; if it
  has fired by the time the \<^verbatim>\<open>select\<close> looks at its cases, the timer case can be taken
  even though a value is queued (Go picks among the ready cases at random). Whether the
  call ends through the timer case is the argument \<open>timer\<close>. Otherwise a queued value is
  received and wrapped in a new Item, a closed and drained channel delivers nil, and on
  an open empty channel the caller waits until the timer fires.
\<close>

definition select :: "bool \<Rightarrow> ('v, 'x) world \<Rightarrow> (fault + nat) \<times> ('v, 'x) world" where
  "select timer w =
     (let p = pool w; c = items p in
      if timer then (Inl (Returned ErrTimeout), w)
      else
        (case buf c of
           v # vs \<Rightarrow>
             (Inr (length (issued w)),
              w\<lparr>pool := p\<lparr>items := c\<lparr>buf := vs\<rparr>\<rparr>,
                issued := issued w @ [\<lparr>val = v, closed = False\<rparr>]\<rparr>)
         | [] \<Rightarrow>
             (if chan_closed c
              then (Inr (length (issued w)),
                    w\<lparr>issued := issued w @ [\<lparr>val = None, closed = False\<rparr>]\<rparr>)
              else (Inl (Returned ErrTimeout), w))))"

subsection \<open>Disposition of an Item\<close>

text \<open>The closure \<^verbatim>\<open>restore\<close> of an Item holding \<open>v\<close>: \<^verbatim>\<open>p.items <- v\<close>.\<close>

definition restore :: "'v iface \<Rightarrow> ('v, 'x) world \<Rightarrow> fault + ('v, 'x) world" where
  "restore v w =
     (case chan_send (items (pool w)) v of
        Inl f \<Rightarrow> Inl f
      | Inr c \<Rightarrow> Inr (w\<lparr>pool := (pool w)\<lparr>items := c\<rparr>\<rparr>))"

text \<open>The closure \<^verbatim>\<open>remove\<close>: \<^verbatim>\<open>p.curSize--\<close>.\<close>

definition remove :: "('v, 'x) world \<Rightarrow> fault + ('v, 'x) world" where
  "remove w = Inr (w\<lparr>pool := (pool w)\<lparr>curSize := curSize (pool w) - 1\<rparr>\<rparr>)"

text \<open>
  \<^verbatim>\<open>Restore\<close> and \<^verbatim>\<open>Remove\<close> on the Item at index \<open>h\<close>. An index that \<^verbatim>\<open>Next\<close> never
  returned stands for an Item built outside the package, whose mutex is nil. When the
  closure panics or blocks, the flag \<open>closed\<close> has not been set.
\<close>

definition Restore :: "nat \<Rightarrow> ('v, 'x) world \<Rightarrow> fault option \<times> ('v, 'x) world" where
  "Restore h w =
     (if length (issued w) \<le> h then (Some (Panicked ''nil pointer dereference''), w)
      else
        (let i = issued w ! h in
         if closed i then (Some (Panicked ''result: already closed''), w)
         else
           (case restore (val i) w of
              Inl f \<Rightarrow> (Some f, w)
            | Inr w1 \<Rightarrow> (None, w1\<lparr>issued := (issued w1)[h := i\<lparr>closed := True\<rparr>]\<rparr>))))"

definition Remove :: "nat \<Rightarrow> ('v, 'x) world \<Rightarrow> fault option \<times> ('v, 'x) world" where
  "Remove h w =
     (if length (issued w) \<le> h then (Some (Panicked ''nil pointer dereference''), w)
      else
        (let i = issued w ! h in
         if closed i then (Some (Panicked ''result: already closed''), w)
         else
           (case remove w of
              Inl f \<Rightarrow> (Some f, w)
            | Inr w1 \<Rightarrow> (None, w1\<lparr>issued := (issued w1)[h := i\<lparr>closed := True\<rparr>]\<rparr>))))"

subsection \<open>Other callers, and Next\<close>

text \<open>
  What another caller can do to the shared state in one atomic step: run \<open>addNew\<close>
  (having found the channel empty at some earlier moment), run its \<^verbatim>\<open>select\<close>, restore
  or remove an Item. The result of the step goes to that caller; here only the state
  counts.
\<close>

datatype act = AddNewAct | SelectAct bool | RestoreAct nat | RemoveAct nat

fun act_step :: "('v, 'x) world \<Rightarrow> act \<Rightarrow> ('v, 'x) world" where
  "act_step w AddNewAct = snd (addNew w)"
| "act_step w (SelectAct timer) = snd (select timer w)"
| "act_step w (RestoreAct h) = snd (Restore h w)"
| "act_step w (RemoveAct h) = snd (Remove h w)"

fun others :: "('v, 'x) world \<Rightarrow> act list \<Rightarrow> ('v, 'x) world" where
  "others w [] = w"
| "others w (a # as) = others (act_step w a) as"

text \<open>
  The schedule of one call of \<open>Next\<close>: the steps of other callers after the test
  \<^verbatim>\<open>len(p.items) < 1\<close>, their steps after \<open>addNew\<close> has released the mutex and before
  the \<^verbatim>\<open>select\<close> takes a case, and whether that case is the timer.
\<close>

record sched =
  before_addNew :: "act list"
  before_select :: "act list"
  timer_wins :: bool

text \<open>A call during which no other caller acts.\<close>

definition alone :: "bool \<Rightarrow> sched" where
  "alone timer = \<lparr>before_addNew = [], before_select = [], timer_wins = timer\<rparr>"

definition Next :: "sched \<Rightarrow> ('v, 'x) world \<Rightarrow> (fault + nat) \<times> ('v, 'x) world" where
  "Next s w =
     (let w0 = others w (before_addNew s) in
      if length (buf (items (pool w))) < 1
      then (case addNew w0 of
              (Some f, w1) \<Rightarrow> (Inl f, w1)
            | (None, w1) \<Rightarrow> select (timer_wins s) (others w1 (before_select s)))
      else select (timer_wins s) (others w0 (before_select s)))"

subsection \<open>Shutdown\<close>

text \<open>
  The type assertion \<^verbatim>\<open>v.(closer)\<close> and the call \<^verbatim>\<open>c.Close()\<close>. Which values have a
  \<^verbatim>\<open>Close() error\<close> method, and what it returns, belongs to the values' own types: the
  parameter \<open>cl\<close> gives \<open>None\<close> for a value without the method and otherwise the
  method's result. The nil interface has no method.
\<close>

definition closer :: "('v \<Rightarrow> error option option) \<Rightarrow> 'v iface \<Rightarrow> error option option" where
  "closer cl v = (case v of None \<Rightarrow> None | Some a \<Rightarrow> cl a)"

text \<open>
  The loop \<^verbatim>\<open>for v := range p.items\<close> of \<^verbatim>\<open>Close\<close> on the closed channel: the returned
  error, the values left in the buffer, and the values whose \<^verbatim>\<open>Close()\<close> was invoked.
\<close>

fun drain ::
  "('v \<Rightarrow> error option option) \<Rightarrow> 'v iface list
     \<Rightarrow> error option \<times> 'v iface list \<times> 'v iface list" where
  "drain cl [] = (None, [], [])"
| "drain cl (v # vs) =
     (case closer cl v of
        None \<Rightarrow> drain cl vs
      | Some (Some e) \<Rightarrow> (Some e, vs, [v])
      | Some None \<Rightarrow> (case drain cl vs of (r, rest, log) \<Rightarrow> (r, rest, v # log)))"

definition Close ::
  "('v \<Rightarrow> error option option) \<Rightarrow> ('v, 'x) world \<Rightarrow> fault option \<times> ('v, 'x) world" where
  "Close cl w =
     (let p = pool w; c = items p in
      if chan_closed c then (Some (Panicked ''close of closed channel''), w)
      else
        (case drain cl (buf c) of
           (r, rest, log) \<Rightarrow>
             (map_option Returned r,
              w\<lparr>pool := p\<lparr>items := c\<lparr>buf := rest, chan_closed := True\<rparr>\<rparr>,
                close_log := close_log w @ log\<rparr>)))"

subsection \<open>Sequences of operations\<close>

datatype op = NextOp sched | RestoreOp nat | RemoveOp nat

fun step :: "('v, 'x) world \<Rightarrow> op \<Rightarrow> fault option \<times> ('v, 'x) world" where
  "step w (NextOp s) =
     (case Next s w of (r, w1) \<Rightarrow> ((case r of Inl f \<Rightarrow> Some f | Inr h \<Rightarrow> None), w1))"
| "step w (RestoreOp h) = Restore h w"
| "step w (RemoveOp h) = Remove h w"

text \<open>
  A caller running the operations one after the other, other callers acting inside its
  calls of \<open>Next\<close> as the schedules say. A panic is recovered and the caller goes on; a
  call that blocks forever ends the run.
\<close>

fun run :: "('v, 'x) world \<Rightarrow> op list \<Rightarrow> ('v, 'x) world" where
  "run w [] = w"
| "run w (a # as) =
     (case step w a of
        (Some Blocked, w1) \<Rightarrow> w1
      | (_, w1) \<Rightarrow> run w1 as)"

text \<open>The atomic steps that an operation can consist of, its own and the other callers'.\<close>

fun op_acts :: "op \<Rightarrow> act list" where
  "op_acts (NextOp s) =
     before_addNew s @ [AddNewAct] @ before_select s @ [SelectAct (timer_wins s)]"
| "op_acts (RestoreOp h) = [RestoreAct h]"
| "op_acts (RemoveOp h) = [RemoveAct h]"

definition acts_of :: "op list \<Rightarrow> act list" where
  "acts_of ops = concat (map op_acts ops)"

subsection \<open>Bookkeeping used in the statements\<close>

text \<open>The Items that have been handed out and not yet restored or removed.\<close>

definition active :: "'v Item list \<Rightarrow> nat" where
  "active xs = length (filter (\<lambda>i. \<not> closed i) xs)"

text \<open>The values that exist at a moment: those idle in the channel and those checked out.\<close>

definition live_values :: "('v, 'x) world \<Rightarrow> 'v iface set" where
  "live_values w =
     set (buf (items (pool w))) \<union> set (map val (filter (\<lambda>i. \<not> closed i) (issued w)))"

text \<open>
  What holds of a pool built by \<open>New\<close> and used through \<open>Next\<close>, \<open>Restore\<close> and
  \<open>Remove\<close>: the channel is open and as large as \<open>maxSize\<close>, and \<open>curSize\<close> counts the
  idle values and the checked-out Items.
\<close>

definition pool_inv :: "('v, 'x) world \<Rightarrow> bool" where
  "pool_inv w \<longleftrightarrow>
     \<not> chan_closed (items (pool w))
     \<and> 1 \<le> sint (maxSize (pool w))
     \<and> cap (items (pool w)) = nat (sint (maxSize (pool w)))
     \<and> sint (curSize (pool w)) = int (length (buf (items (pool w)))) + int (active (issued w))
     \<and> sint (curSize (pool w)) \<le> sint (maxSize (pool w))"

subsection \<open>The fixtures of lido\_test.go\<close>

text \<open>
  The test values: the string \<^verbatim>\<open>"item"\<close>, which has no \<^verbatim>\<open>Close\<close> method, and
  \<^verbatim>\<open>*value\<close> with its id and the error its \<^verbatim>\<open>Close\<close> returns.
\<close>

datatype tvalue = Plain string | Value nat "error option"

definition value_Close :: "tvalue \<Rightarrow> error option option" where
  "value_Close v = (case v of Plain s \<Rightarrow> None | Value n e \<Rightarrow> Some e)"

definition errBasic :: error where
  "errBasic = AppError 0"

text \<open>\<^verbatim>\<open>factory.create\<close>: values with the ids 0, 1, 2, ...; the state is the next id.\<close>

definition create :: "(tvalue, nat) factory" where
  "create n = ((Some (Value n None), None), Suc n)"

text \<open>The factory of the test "should return new func errors".\<close>

definition failing :: "(tvalue, nat) factory" where
  "failing n = ((None, Some errBasic), n)"

text \<open>A factory that hands on the error of another pool's \<^verbatim>\<open>Next\<close>.\<close>

definition relaying :: "(tvalue, nat) factory" where
  "relaying n = ((None, Some ErrTimeout), n)"

text \<open>
  A pool of size 2 over \<^verbatim>\<open>factory.create\<close>, as in the test "should grow the pool to the
  maximum size", here with the default timeout.
\<close>

definition demo_pool :: "(tvalue, nat) Pool" where
  "demo_pool = \<lparr>items = \<lparr>buf = [], cap = 2, chan_closed = False\<rparr>, newFn = create,
                maxSize = 2, curSize = 0, timeout = 30 * Second\<rparr>"

text \<open>The pool of the test "should return new func errors".\<close>

definition failing_pool :: "(tvalue, nat) Pool" where
  "failing_pool = \<lparr>items = \<lparr>buf = [], cap = 1, chan_closed = False\<rparr>, newFn = failing,
                   maxSize = 1, curSize = 0, timeout = 100000000\<rparr>"

text \<open>The size-2 pool after one and after two calls of \<^verbatim>\<open>Next\<close>, nothing given back.\<close>

definition demo_one_out :: "(tvalue, nat) world" where
  "demo_one_out =
     \<lparr>pool = \<lparr>items = \<lparr>buf = [], cap = 2, chan_closed = False\<rparr>, newFn = create,
               maxSize = 2, curSize = 1, timeout = 30 * Second\<rparr>,
       issued = [\<lparr>val = Some (Value 0 None), closed = False\<rparr>],
       ext = 1, factory_calls = 1, close_log = []\<rparr>"

definition demo_two_out :: "(tvalue, nat) world" where
  "demo_two_out =
     \<lparr>pool = \<lparr>items = \<lparr>buf = [], cap = 2, chan_closed = False\<rparr>, newFn = create,
               maxSize = 2, curSize = 2, timeout = 30 * Second\<rparr>,
       issued = [\<lparr>val = Some (Value 0 None), closed = False\<rparr>,
                 \<lparr>val = Some (Value 1 None), closed = False\<rparr>],
       ext = 2, factory_calls = 2, close_log = []\<rparr>"

text \<open>A pool of size 4 with the values \<open>vs\<close> idle and nothing checked out.\<close>

definition shelf :: "tvalue iface list \<Rightarrow> (tvalue, nat) world" where
  "shelf vs =
     \<lparr>pool = \<lparr>items = \<lparr>buf = vs, cap = 4, chan_closed = False\<rparr>, newFn = create,
               maxSize = 4, curSize = of_nat (length vs), timeout = 30 * Second\<rparr>,
       issued = [], ext = length vs, factory_calls = length vs, close_log = []\<rparr>"

text \<open>A pool of size 1 whose factory hands on another pool's timeout.\<close>

definition relay_pool :: "(tvalue, nat) Pool" where
  "relay_pool = \<lparr>items = \<lparr>buf = [], cap = 1, chan_closed = False\<rparr>, newFn = relaying,
                 maxSize = 1, curSize = 0, timeout = 30 * Second\<rparr>"

section \<open>Properties\<close>

subsection \<open>Signed arithmetic on the counter\<close>

lemma sint_succ:
  fixes x y :: int64
  assumes "x <s y"
  shows "sint (x + 1) = sint x + 1"
proof -
  have lt: "sint x < sint y" using assms by (simp add: word_sless_alt)
  have "sint y < 2 ^ 63" using sint_lt [of y] by simp
  moreover have "- (2 ^ 63) \<le> sint x" using sint_ge [of x] by simp
  ultimately have "- (2 ^ 63) \<le> sint x + 1 \<and> sint x + 1 < 2 ^ 63" using lt by arith
  then have "signed_take_bit 63 (sint x + 1) = sint x + 1"
    by (simp add: signed_take_bit_int_eq_self)
  then show ?thesis by (simp add: sint_word_ariths)
qed

lemma sint_pred:
  fixes x :: int64
  assumes "0 < sint x"
  shows "sint (x - 1) = sint x - 1"
proof -
  have "sint x < 2 ^ 63" using sint_lt [of x] by simp
  then have "- (2 ^ 63) \<le> sint x - 1 \<and> sint x - 1 < 2 ^ 63" using assms by arith
  then have "signed_take_bit 63 (sint x - 1) = sint x - 1"
    by (simp add: signed_take_bit_int_eq_self)
  then show ?thesis by (simp add: sint_word_ariths)
qed

lemma thirty_seconds_positive: "0 <s 30 * Second"
  by (simp add: Second_def word_sless_alt)

subsection \<open>The atomic steps, case by case\<close>

lemma select_timer: "select True w = (Inl (Returned ErrTimeout), w)"
  by (simp add: select_def)

lemma select_idle:
  assumes "buf (items (pool w)) = v # vs"
  shows "select False w =
    (Inr (length (issued w)),
     w\<lparr>pool := (pool w)\<lparr>items := (items (pool w))\<lparr>buf := vs\<rparr>\<rparr>,
       issued := issued w @ [\<lparr>val = v, closed = False\<rparr>]\<rparr>)"
  using assms by (simp add: select_def Let_def)

lemma select_empty:
  assumes "buf (items (pool w)) = []" and "\<not> chan_closed (items (pool w))"
  shows "select timer w = (Inl (Returned ErrTimeout), w)"
  using assms by (simp add: select_def Let_def)

lemma addNew_full:
  assumes "maxSize (pool w) \<le>s curSize (pool w)"
  shows "addNew w = (None, w)"
  using assms by (simp add: addNew_def)

lemma addNew_error:
  assumes "\<not> maxSize (pool w) \<le>s curSize (pool w)"
    and "newFn (pool w) (ext w) = ((v, Some e), x')"
  shows "addNew w = (Some (Returned e), w\<lparr>ext := x', factory_calls := Suc (factory_calls w)\<rparr>)"
  using assms by (simp add: addNew_def)

lemma addNew_grow:
  assumes "\<not> maxSize (pool w) \<le>s curSize (pool w)"
    and "newFn (pool w) (ext w) = ((v, None), x')"
    and "\<not> chan_closed (items (pool w))"
    and "length (buf (items (pool w))) < cap (items (pool w))"
  shows "addNew w =
    (None,
     w\<lparr>ext := x', factory_calls := Suc (factory_calls w),
       pool := (pool w)\<lparr>items := (items (pool w))\<lparr>buf := buf (items (pool w)) @ [v]\<rparr>,
                        curSize := curSize (pool w) + 1\<rparr>\<rparr>)"
  using assms by (simp add: addNew_def chan_send_def Let_def)

lemma addNew_calls:
  assumes "factory_calls (snd (addNew w)) \<noteq> factory_calls w"
  shows "\<not> maxSize (pool w) \<le>s curSize (pool w)
     \<and> factory_calls (snd (addNew w)) = Suc (factory_calls w)
     \<and> ext (snd (addNew w)) = snd (newFn (pool w) (ext w))"
  using assms
  by (auto simp: addNew_def Let_def split: prod.splits option.splits sum.splits if_splits)

lemma addNew_curSize:
  assumes "curSize (pool (snd (addNew w))) \<noteq> curSize (pool w)"
  shows "factory_calls (snd (addNew w)) \<noteq> factory_calls w"
  using assms
  by (auto simp: addNew_def Let_def split: prod.splits option.splits sum.splits if_splits)

lemma select_pool:
  "factory_calls (snd (select timer w)) = factory_calls w
   \<and> ext (snd (select timer w)) = ext w
   \<and> curSize (pool (snd (select timer w))) = curSize (pool w)"
  by (simp add: select_def Let_def split: list.splits)

lemma Restore_ok_open:
  assumes "h < length (issued w)" and "\<not> closed (issued w ! h)"
    and "\<not> chan_closed (items (pool w))"
    and "length (buf (items (pool w))) < cap (items (pool w))"
  shows "Restore h w =
    (None, w\<lparr>pool := (pool w)\<lparr>items := (items (pool w))
                 \<lparr>buf := buf (items (pool w)) @ [val (issued w ! h)]\<rparr>\<rparr>,
              issued := (issued w)[h := (issued w ! h)\<lparr>closed := True\<rparr>]\<rparr>)"
  using assms by (simp add: Restore_def restore_def chan_send_def Let_def)

lemma Remove_ok:
  assumes "h < length (issued w)" and "\<not> closed (issued w ! h)"
  shows "Remove h w =
    (None, w\<lparr>pool := (pool w)\<lparr>curSize := curSize (pool w) - 1\<rparr>,
              issued := (issued w)[h := (issued w ! h)\<lparr>closed := True\<rparr>]\<rparr>)"
  using assms by (simp add: Remove_def remove_def Let_def)

lemma dispose_again:
  assumes "h < length (issued w)" and "closed (issued w ! h)"
  shows "Restore h w = (Some (Panicked ''result: already closed''), w)"
    and "Remove h w = (Some (Panicked ''result: already closed''), w)"
  using assms by (simp_all add: Restore_def Remove_def Let_def)

lemma dispose_unknown:
  assumes "length (issued w) \<le> h"
  shows "Restore h w = (Some (Panicked ''nil pointer dereference''), w)"
    and "Remove h w = (Some (Panicked ''nil pointer dereference''), w)"
  using assms by (simp_all add: Restore_def Remove_def)

lemma Restore_calls:
  "factory_calls (snd (Restore h w)) = factory_calls w
   \<and> curSize (pool (snd (Restore h w))) = curSize (pool w)"
  by (simp add: Restore_def restore_def Let_def split: sum.splits)

lemma Remove_calls: "factory_calls (snd (Remove h w)) = factory_calls w"
  by (simp add: Remove_def remove_def Let_def)

lemma Next_alone:
  "Next (alone timer) w =
     (if length (buf (items (pool w))) < 1
      then (case addNew w of (Some f, w1) \<Rightarrow> (Inl f, w1) | (None, w1) \<Rightarrow> select timer w1)
      else select timer w)"
  by (auto simp: Next_def alone_def split: prod.splits option.splits)

subsection \<open>Every run is a sequence of atomic steps\<close>

lemma others_append: "others w (as @ bs) = others (others w as) bs"
  by (induction as arbitrary: w) simp_all

lemma Next_state:
  "\<exists>as. snd (Next s w) = others w as \<and> set as \<subseteq> set (op_acts (NextOp s))"
proof -
  let ?w0 = "others w (before_addNew s)"
  obtain r w1 where a: "addNew ?w0 = (r, w1)" by (cases "addNew ?w0")
  have w1: "w1 = others w (before_addNew s @ [AddNewAct])"
    using a by (simp add: others_append)
  show ?thesis
  proof (cases "length (buf (items (pool w))) < 1")
    case True
    show ?thesis
    proof (cases r)
      case (Some f)
      then have "snd (Next s w) = w1"
        using True a by (simp add: Next_def Let_def)
      then have "snd (Next s w) = others w (before_addNew s @ [AddNewAct])"
        using w1 by simp
      then show ?thesis by (intro exI [of _ "before_addNew s @ [AddNewAct]"]) auto
    next
      case None
      then have "snd (Next s w) = snd (select (timer_wins s) (others w1 (before_select s)))"
        using True a by (simp add: Next_def Let_def)
      then have "snd (Next s w)
          = others w ((before_addNew s @ [AddNewAct]) @ before_select s
              @ [SelectAct (timer_wins s)])"
        unfolding w1 by (simp add: others_append)
      then show ?thesis
        by (intro exI [of _ "(before_addNew s @ [AddNewAct]) @ before_select s
              @ [SelectAct (timer_wins s)]"]) auto
    qed
  next
    case False
    then have "snd (Next s w)
        = others w (before_addNew s @ before_select s @ [SelectAct (timer_wins s)])"
      by (simp add: Next_def Let_def others_append)
    then show ?thesis
      by (intro exI [of _ "before_addNew s @ before_select s @ [SelectAct (timer_wins s)]"])
        auto
  qed
qed

lemma step_state:
  "\<exists>as. snd (step w a) = others w as \<and> set as \<subseteq> set (op_acts a)"
proof (cases a)
  case (NextOp s)
  then have "snd (step w a) = snd (Next s w)" by (simp split: prod.splits)
  then show ?thesis using Next_state [of s w] NextOp by simp
next
  case (RestoreOp h)
  then have "snd (step w a) = others w [RestoreAct h]" by simp
  then show ?thesis using RestoreOp by (intro exI [of _ "[RestoreAct h]"]) simp
next
  case (RemoveOp h)
  then have "snd (step w a) = others w [RemoveAct h]" by simp
  then show ?thesis using RemoveOp by (intro exI [of _ "[RemoveAct h]"]) simp
qed

lemma run_state:
  "\<exists>as. run w ops = others w as \<and> set as \<subseteq> set (acts_of ops)"
proof (induction ops arbitrary: w)
  case Nil
  show ?case by (intro exI [of _ "[]"]) simp
next
  case (Cons a ops)
  obtain r w1 where s: "step w a = (r, w1)" by (cases "step w a")
  obtain as where as: "w1 = others w as" "set as \<subseteq> set (op_acts a)"
    using step_state [of w a] s by auto
  show ?case
  proof (cases "r = Some Blocked")
    case True
    then have "run w (a # ops) = others w as" using s as(1) by simp
    then show ?thesis using as(2) by (intro exI [of _ as]) (auto simp: acts_of_def)
  next
    case False
    then have e: "run w (a # ops) = run w1 ops"
      using s by (simp split: option.splits fault.splits)
    obtain bs where bs: "run w1 ops = others w1 bs" "set bs \<subseteq> set (acts_of ops)"
      using Cons.IH [of w1] by auto
    have "run w (a # ops) = others w (as @ bs)"
      using e bs(1) as(1) by (simp add: others_append)
    then show ?thesis
      using as(2) bs(2) by (intro exI [of _ "as @ bs"]) (auto simp: acts_of_def)
  qed
qed

lemma others_preserves:
  assumes "\<And>w a. a \<in> A \<Longrightarrow> P w \<Longrightarrow> P (act_step w a)"
    and "set as \<subseteq> A" and "P w"
  shows "P (others w as)"
  using assms(2,3)
proof (induction as arbitrary: w)
  case Nil
  then show ?case by simp
next
  case (Cons a as)
  then have "P (act_step w a)" using assms(1) by simp
  then show ?case using Cons by simp
qed

lemma run_preserves:
  assumes "\<And>w a. a \<in> A \<Longrightarrow> P w \<Longrightarrow> P (act_step w a)"
    and "set (acts_of ops) \<subseteq> A" and "P w"
  shows "P (run w ops)"
proof -
  obtain as where "run w ops = others w as" "set as \<subseteq> set (acts_of ops)"
    using run_state [of w ops] by auto
  then show ?thesis
    using others_preserves [of A P as w] assms by auto
qed

subsection \<open>The configuration is fixed\<close>

lemma act_config:
  "maxSize (pool (act_step w a)) = maxSize (pool w)
   \<and> timeout (pool (act_step w a)) = timeout (pool w)"
  by (cases a)
    (auto simp: addNew_def select_def Restore_def restore_def Remove_def remove_def Let_def
      split: prod.splits option.splits sum.splits list.splits)

lemma run_config:
  "maxSize (pool (run w ops)) = maxSize (pool w)
   \<and> timeout (pool (run w ops)) = timeout (pool w)"
  by (rule run_preserves
      [of UNIV "\<lambda>u. maxSize (pool u) = maxSize (pool w) \<and> timeout (pool u) = timeout (pool w)"])
    (simp_all add: act_config)

lemma Close_config:
  "maxSize (pool (snd (Close cl w))) = maxSize (pool w)
   \<and> timeout (pool (snd (Close cl w))) = timeout (pool w)"
  by (simp add: Close_def Let_def split: prod.splits)

subsection \<open>The invariant\<close>

lemma active_append [simp]: "active (xs @ [i]) = (if closed i then active xs else Suc (active xs))"
  by (simp add: active_def)

lemma active_Nil [simp]: "active [] = 0"
  by (simp add: active_def)

lemma active_update:
  "h < length xs \<Longrightarrow> \<not> closed (xs ! h) \<Longrightarrow>
     Suc (active (xs[h := (xs ! h)\<lparr>closed := True\<rparr>])) = active xs"
proof (induction xs arbitrary: h)
  case Nil
  then show ?case by simp
next
  case (Cons x xs)
  show ?case
  proof (cases h)
    case 0
    then show ?thesis using Cons.prems by (simp add: active_def)
  next
    case (Suc k)
    then have "Suc (active (xs[k := (xs ! k)\<lparr>closed := True\<rparr>])) = active xs"
      using Cons.IH [of k] Cons.prems by simp
    then show ?thesis using Suc by (simp add: active_def)
  qed
qed

lemma active_pos: "h < length xs \<Longrightarrow> \<not> closed (xs ! h) \<Longrightarrow> 0 < active xs"
  using active_update [of h xs] by arith

lemma New_inv:
  assumes "New lim opts = Inr p"
  shows "pool_inv (start p x)"
  using assms
  by (auto simp: New_def pool_inv_def start_def Let_def word_sle_eq
      split: option.splits if_splits)

lemma inv_room:
  assumes "pool_inv w"
    and "\<not> maxSize (pool w) \<le>s curSize (pool w) \<or> 0 < active (issued w)"
  shows "length (buf (items (pool w))) < cap (items (pool w))"
  using assms unfolding pool_inv_def word_sle_eq by arith

lemma addNew_inv:
  assumes "pool_inv w"
  shows "pool_inv (snd (addNew w))"
proof (cases "maxSize (pool w) \<le>s curSize (pool w)")
  case True
  then show ?thesis using assms by (simp add: addNew_full)
next
  case False
  obtain v err x' where f: "newFn (pool w) (ext w) = ((v, err), x')"
    by (metis surj_pair)
  show ?thesis
  proof (cases err)
    case (Some e)
    then show ?thesis
      using assms addNew_error [OF False, of v e x'] f by (simp add: pool_inv_def)
  next
    case None
    have lt: "curSize (pool w) <s maxSize (pool w)"
      using False by (simp add: word_sless_alt word_sle_eq)
    have c: "\<not> chan_closed (items (pool w))"
      using assms by (simp add: pool_inv_def)
    have r: "length (buf (items (pool w))) < cap (items (pool w))"
      using inv_room [OF assms] False by simp
    have n: "sint (curSize (pool w) + 1) = sint (curSize (pool w)) + 1"
      by (rule sint_succ [OF lt])
    have "sint (curSize (pool w)) < sint (maxSize (pool w))"
      using lt by (simp add: word_sless_alt)
    then show ?thesis
      using assms n f None addNew_grow [OF False _ c r, of v x']
      by (simp add: pool_inv_def)
  qed
qed

lemma select_inv:
  assumes "pool_inv w"
  shows "pool_inv (snd (select timer w))"
proof (cases timer)
  case True
  then show ?thesis using assms by (simp add: select_timer)
next
  case False
  show ?thesis
  proof (cases "buf (items (pool w))")
    case Nil
    then show ?thesis using assms by (simp add: select_empty pool_inv_def)
  next
    case (Cons v vs)
    then show ?thesis
      using assms False by (simp add: select_idle [OF Cons] pool_inv_def)
  qed
qed

lemma Restore_ok:
  assumes "pool_inv w" and "h < length (issued w)" and "\<not> closed (issued w ! h)"
  shows "Restore h w =
    (None, w\<lparr>pool := (pool w)\<lparr>items := (items (pool w))
                 \<lparr>buf := buf (items (pool w)) @ [val (issued w ! h)]\<rparr>\<rparr>,
              issued := (issued w)[h := (issued w ! h)\<lparr>closed := True\<rparr>]\<rparr>)"
proof -
  have "0 < active (issued w)" using assms(2,3) by (rule active_pos)
  then have "length (buf (items (pool w))) < cap (items (pool w))"
    using inv_room [OF assms(1)] by simp
  moreover have "\<not> chan_closed (items (pool w))"
    using assms(1) by (simp add: pool_inv_def)
  ultimately show ?thesis
    using assms(2,3) by (simp add: Restore_ok_open)
qed

lemma Restore_inv:
  assumes "pool_inv w"
  shows "pool_inv (snd (Restore h w))"
proof (cases "h < length (issued w) \<and> \<not> closed (issued w ! h)")
  case True
  then have "Suc (active ((issued w)[h := (issued w ! h)\<lparr>closed := True\<rparr>])) = active (issued w)"
    by (simp add: active_update)
  then show ?thesis
    using assms True by (simp add: Restore_ok pool_inv_def)
next
  case False
  then show ?thesis
    using assms dispose_again(1) [of h w] dispose_unknown(1) [of w h]
    by (cases "h < length (issued w)") auto
qed

lemma Remove_inv:
  assumes "pool_inv w"
  shows "pool_inv (snd (Remove h w))"
proof (cases "h < length (issued w) \<and> \<not> closed (issued w ! h)")
  case True
  then have a: "Suc (active ((issued w)[h := (issued w ! h)\<lparr>closed := True\<rparr>])) = active (issued w)"
    by (simp add: active_update)
  then have "0 < sint (curSize (pool w))"
    using assms by (simp add: pool_inv_def)
  then have "sint (curSize (pool w) - 1) = sint (curSize (pool w)) - 1"
    by (rule sint_pred)
  then show ?thesis
    using assms True a by (simp add: Remove_ok pool_inv_def)
next
  case False
  then show ?thesis
    using assms dispose_again(2) [of h w] dispose_unknown(2) [of w h]
    by (cases "h < length (issued w)") auto
qed

lemma act_inv:
  assumes "pool_inv w"
  shows "pool_inv (act_step w a)"
  using addNew_inv [OF assms] select_inv [OF assms] Restore_inv [OF assms]
    Remove_inv [OF assms]
  by (cases a) simp_all

lemma others_inv:
  assumes "pool_inv w"
  shows "pool_inv (others w as)"
  by (rule others_preserves [of UNIV pool_inv]) (simp_all add: act_inv assms)

lemma run_inv:
  assumes "pool_inv w"
  shows "pool_inv (run w ops)"
  by (rule run_preserves [of UNIV pool_inv]) (simp_all add: act_inv assms)

lemma Next_inv:
  assumes "pool_inv w"
  shows "pool_inv (snd (Next s w))"
  using Next_state [of s w] others_inv [OF assms] by auto

text \<open>In a state with the invariant no atomic step blocks, so no mutex is held forever.\<close>

lemma act_never_blocks:
  assumes "pool_inv w"
  shows "fst (addNew w) \<noteq> Some Blocked" and "fst (select timer w) \<noteq> Inl Blocked"
    and "fst (Restore h w) \<noteq> Some Blocked" and "fst (Remove h w) \<noteq> Some Blocked"
proof -
  show "fst (addNew w) \<noteq> Some Blocked"
  proof (cases "maxSize (pool w) \<le>s curSize (pool w)")
    case True
    then show ?thesis by (simp add: addNew_full)
  next
    case False
    have "length (buf (items (pool w))) < cap (items (pool w))"
      using inv_room [OF assms] False by simp
    then show ?thesis
      by (auto simp: addNew_def chan_send_def Let_def
          split: prod.splits option.splits sum.splits)
  qed
  show "fst (select timer w) \<noteq> Inl Blocked"
    by (simp add: select_def Let_def split: list.splits)
  show "fst (Restore h w) \<noteq> Some Blocked"
  proof (cases "h < length (issued w) \<and> \<not> closed (issued w ! h)")
    case True
    then show ?thesis using Restore_ok [OF assms, of h] by simp
  next
    case False
    then show ?thesis
      using dispose_again(1) [of h w] dispose_unknown(1) [of w h]
      by (cases "h < length (issued w)") auto
  qed
  show "fst (Remove h w) \<noteq> Some Blocked"
    by (simp add: Remove_def remove_def Let_def)
qed

subsection \<open>Growth\<close>

lemma Remove_curSize:
  assumes "pool_inv w"
  shows "sint (curSize (pool (snd (Remove h w)))) \<le> sint (curSize (pool w))"
proof (cases "h < length (issued w) \<and> \<not> closed (issued w ! h)")
  case True
  then have "0 < active (issued w)" using active_pos [of h "issued w"] by simp
  then have "0 < sint (curSize (pool w))"
    using assms by (simp add: pool_inv_def)
  then have "sint (curSize (pool w) - 1) = sint (curSize (pool w)) - 1"
    by (rule sint_pred)
  then show ?thesis using True by (simp add: Remove_ok)
next
  case False
  then show ?thesis
    using dispose_again(2) [of h w] dispose_unknown(2) [of w h]
    by (cases "h < length (issued w)") auto
qed

lemma act_growth:
  assumes "pool_inv w"
    and "factory_calls (act_step w a) \<noteq> factory_calls w
         \<or> sint (curSize (pool w)) < sint (curSize (pool (act_step w a)))"
  shows "a = AddNewAct \<and> curSize (pool w) <s maxSize (pool w)
         \<and> factory_calls (act_step w a) = Suc (factory_calls w)"
proof (cases a)
  case AddNewAct
  then have "factory_calls (snd (addNew w)) \<noteq> factory_calls w
      \<or> curSize (pool (snd (addNew w))) \<noteq> curSize (pool w)"
    using assms(2) by auto
  then have "factory_calls (snd (addNew w)) \<noteq> factory_calls w"
    using addNew_curSize [of w] by blast
  then show ?thesis
    using addNew_calls [of w] AddNewAct by (simp add: word_sless_alt word_sle_eq)
next
  case (SelectAct timer)
  then show ?thesis using assms(2) select_pool [of timer w] by simp
next
  case (RestoreAct h)
  then show ?thesis using assms(2) by (simp add: Restore_calls)
next
  case (RemoveAct h)
  then show ?thesis
    using assms(2) Remove_curSize [OF assms(1), of h] by (simp add: Remove_calls)
qed

lemma step_alone_growth:
  assumes "pool_inv w"
    and "\<forall>s. a = NextOp s \<longrightarrow> before_addNew s = [] \<and> before_select s = []"
    and "factory_calls (snd (step w a)) \<noteq> factory_calls w
         \<or> sint (curSize (pool w)) < sint (curSize (pool (snd (step w a))))"
  shows "(\<exists>s. a = NextOp s) \<and> curSize (pool w) <s maxSize (pool w)"
proof (cases a)
  case (NextOp s)
  then have s: "s = alone (timer_wins s)"
    using assms(2) by (simp add: alone_def)
  have e: "snd (step w a) = snd (Next (alone (timer_wins s)) w)"
    using NextOp s by (simp split: prod.splits)
  have "snd (Next (alone (timer_wins s)) w) = w
      \<or> snd (Next (alone (timer_wins s)) w) = snd (addNew w)
      \<or> snd (Next (alone (timer_wins s)) w) = snd (select (timer_wins s) (snd (addNew w)))
      \<or> snd (Next (alone (timer_wins s)) w) = snd (select (timer_wins s) w)"
    by (auto simp: Next_alone split: prod.splits option.splits)
  then have "factory_calls (act_step w AddNewAct) \<noteq> factory_calls w
         \<or> sint (curSize (pool w)) < sint (curSize (pool (act_step w AddNewAct)))"
    using assms(3) e select_pool [of "timer_wins s" w]
      select_pool [of "timer_wins s" "snd (addNew w)"]
    by auto
  then show ?thesis
    using act_growth [OF assms(1), of AddNewAct] NextOp by simp
next
  case (RestoreOp h)
  then show ?thesis
    using assms(3) act_growth [OF assms(1), of "RestoreAct h"] by simp
next
  case (RemoveOp h)
  then show ?thesis
    using assms(3) act_growth [OF assms(1), of "RemoveAct h"] by simp
qed

text \<open>
  C1. Take a pool built by \<open>New\<close>, any sequence of \<open>Next\<close>, \<open>Restore\<close> and \<open>Remove\<close> on any
  Items, with other callers acting inside the calls of \<open>Next\<close> in any way, and then any
  further atomic steps of any callers. In the state reached, \<open>curSize\<close> lies between 0 and
  \<open>maxSize\<close> and the channel holds at most \<open>curSize\<close> values. An atomic step in such a
  state invokes the factory, or raises \<open>curSize\<close>, only if it is \<open>addNew\<close> and
  \<open>curSize < maxSize\<close> holds as it runs; and an operation during which no other caller
  acts does so only if it is \<open>Next\<close> and \<open>curSize < maxSize\<close> held when it started.
\<close>

theorem live_count_bounded:
  assumes "New lim opts = Inr p"
  shows "0 \<le> sint (curSize (pool (others (run (start p x) ops) as)))
     \<and> sint (curSize (pool (others (run (start p x) ops) as)))
          \<le> sint (maxSize (pool (others (run (start p x) ops) as)))
     \<and> maxSize (pool (others (run (start p x) ops) as)) = Size p
     \<and> int (length (buf (items (pool (others (run (start p x) ops) as)))))
          \<le> sint (curSize (pool (others (run (start p x) ops) as)))
     \<and> (\<forall>a. factory_calls (act_step (others (run (start p x) ops) as) a)
                \<noteq> factory_calls (others (run (start p x) ops) as)
              \<or> sint (curSize (pool (others (run (start p x) ops) as)))
                  < sint (curSize (pool (act_step (others (run (start p x) ops) as) a)))
            \<longrightarrow> a = AddNewAct
                \<and> curSize (pool (others (run (start p x) ops) as))
                    <s maxSize (pool (others (run (start p x) ops) as)))
     \<and> (\<forall>a. (\<forall>s. a = NextOp s \<longrightarrow> before_addNew s = [] \<and> before_select s = [])
              \<and> (factory_calls (snd (step (run (start p x) ops) a))
                    \<noteq> factory_calls (run (start p x) ops)
                  \<or> sint (curSize (pool (run (start p x) ops)))
                      < sint (curSize (pool (snd (step (run (start p x) ops) a)))))
            \<longrightarrow> (\<exists>s. a = NextOp s)
                \<and> curSize (pool (run (start p x) ops)) <s maxSize (pool (run (start p x) ops)))"
proof -
  let ?v = "run (start p x) ops"
  let ?w = "others ?v as"
  have j: "pool_inv ?v"
    by (rule run_inv [OF New_inv [OF assms]])
  have i: "pool_inv ?w"
    by (rule others_inv [OF j])
  have "maxSize (pool ?w) = maxSize (pool ?v)"
    using others_preserves [of UNIV "\<lambda>u. maxSize (pool u) = maxSize (pool ?v)" as ?v]
    by (simp add: act_config)
  then have m: "maxSize (pool ?w) = Size p"
    by (simp add: run_config Size_def start_def)
  have b: "0 \<le> sint (curSize (pool ?w))"
     "sint (curSize (pool ?w)) \<le> sint (maxSize (pool ?w))"
     "int (length (buf (items (pool ?w)))) \<le> sint (curSize (pool ?w))"
    using i by (simp_all add: pool_inv_def)
  have g: "\<forall>a. factory_calls (act_step ?w a) \<noteq> factory_calls ?w
              \<or> sint (curSize (pool ?w)) < sint (curSize (pool (act_step ?w a)))
            \<longrightarrow> a = AddNewAct \<and> curSize (pool ?w) <s maxSize (pool ?w)"
    using act_growth [OF i] by blast
  have h: "\<forall>a. (\<forall>s. a = NextOp s \<longrightarrow> before_addNew s = [] \<and> before_select s = [])
              \<and> (factory_calls (snd (step ?v a)) \<noteq> factory_calls ?v
                  \<or> sint (curSize (pool ?v)) < sint (curSize (pool (snd (step ?v a)))))
            \<longrightarrow> (\<exists>s. a = NextOp s) \<and> curSize (pool ?v) <s maxSize (pool ?v)"
    using step_alone_growth [OF j] by blast
  show ?thesis
    by (intro conjI) (rule b m g h)+
qed

lemma demo_pool_New:
  "New 16 \<lparr>opt_New = Some create, opt_Size = 2, opt_Timeout = 0\<rparr> = Inr demo_pool"
  by (simp add: New_def demo_pool_def word_sle_eq)

lemma demo_run:
  "run (start demo_pool 0)
     [NextOp (alone False), NextOp (alone False), NextOp (alone False), RestoreOp 0, RemoveOp 1] =
   \<lparr>pool = \<lparr>items = \<lparr>buf = [Some (Value 0 None)], cap = 2, chan_closed = False\<rparr>,
             newFn = create, maxSize = 2, curSize = 1, timeout = 30 * Second\<rparr>,
     issued = [\<lparr>val = Some (Value 0 None), closed = True\<rparr>,
               \<lparr>val = Some (Value 1 None), closed = True\<rparr>],
     ext = 2, factory_calls = 2, close_log = []\<rparr>"
  by (simp add: start_def demo_pool_def Next_alone addNew_def select_def chan_send_def
      create_def Restore_def restore_def Remove_def remove_def word_sle_eq Let_def)

lemma demo_first_Next:
  "Next (alone False) (start demo_pool 0) =
   (Inr 0,
    \<lparr>pool = \<lparr>items = \<lparr>buf = [], cap = 2, chan_closed = False\<rparr>,
             newFn = create, maxSize = 2, curSize = 1, timeout = 30 * Second\<rparr>,
     issued = [\<lparr>val = Some (Value 0 None), closed = False\<rparr>],
     ext = 1, factory_calls = 1, close_log = []\<rparr>)"
  by (simp add: start_def demo_pool_def Next_alone addNew_def select_def chan_send_def
      create_def word_sle_eq Let_def)

theorem live_count_bounded_witness:
  "New 16 \<lparr>opt_New = Some create, opt_Size = 2, opt_Timeout = 0\<rparr> = Inr demo_pool
   \<and> sint (curSize (pool (others (run (start demo_pool 0)
             [NextOp (alone False), NextOp (alone False), NextOp (alone False),
              RestoreOp 0, RemoveOp 1]) []))) = 1
   \<and> length (buf (items (pool (others (run (start demo_pool 0)
             [NextOp (alone False), NextOp (alone False), NextOp (alone False),
              RestoreOp 0, RemoveOp 1]) [])))) = 1
   \<and> factory_calls (snd (step (run (start demo_pool 0) []) (NextOp (alone False))))
        \<noteq> factory_calls (run (start demo_pool 0) [])
   \<and> factory_calls (act_step (others (run (start demo_pool 0) []) []) AddNewAct)
        \<noteq> factory_calls (others (run (start demo_pool 0) []) [])
   \<and> curSize (pool (run (start demo_pool 0) [])) <s maxSize (pool (run (start demo_pool 0) []))"
proof -
  let ?w = "run (start demo_pool 0) []"
  have g: "factory_calls (snd (step ?w (NextOp (alone False)))) \<noteq> factory_calls ?w"
    by (simp add: demo_first_Next) (simp add: start_def)
  have u: "\<forall>s. NextOp (alone False) = NextOp s \<longrightarrow> before_addNew s = [] \<and> before_select s = []"
    by (auto simp: alone_def)
  have k: "factory_calls (act_step (others ?w []) AddNewAct) \<noteq> factory_calls (others ?w [])"
    by (simp add: start_def demo_pool_def addNew_def chan_send_def create_def word_sle_eq
        Let_def)
  have "curSize (pool ?w) <s maxSize (pool ?w)"
    using live_count_bounded [OF demo_pool_New, of 0 "[]" "[]"] g u by blast
  moreover have "sint (curSize (pool (others (run (start demo_pool 0)
             [NextOp (alone False), NextOp (alone False), NextOp (alone False),
              RestoreOp 0, RemoveOp 1]) []))) = 1"
    unfolding demo_run by simp
  moreover have "length (buf (items (pool (others (run (start demo_pool 0)
             [NextOp (alone False), NextOp (alone False), NextOp (alone False),
              RestoreOp 0, RemoveOp 1]) [])))) = 1"
    unfolding demo_run by simp
  ultimately show ?thesis
    using g k demo_pool_New by blast
qed

subsection \<open>Acquisition\<close>

lemma Next_alone_calls:
  assumes "factory_calls (snd (Next (alone timer) w)) \<noteq> factory_calls w"
  shows "buf (items (pool w)) = [] \<and> \<not> maxSize (pool w) \<le>s curSize (pool w)
     \<and> factory_calls (snd (Next (alone timer) w)) = Suc (factory_calls w)
     \<and> ext (snd (Next (alone timer) w)) = snd (newFn (pool w) (ext w))"
proof -
  have e: "buf (items (pool w)) = []"
    using assms select_pool [of timer w] by (auto simp: Next_alone split: if_splits)
  obtain r w1 where a: "addNew w = (r, w1)" by (cases "addNew w")
  have "factory_calls (snd (Next (alone timer) w)) = factory_calls w1
      \<and> ext (snd (Next (alone timer) w)) = ext w1"
    using e a select_pool [of timer w1] by (cases r) (simp_all add: Next_alone)
  then show ?thesis
    using assms e a addNew_calls [of w] by simp
qed


text \<open>
  C3. When a call of \<open>Next\<close> invokes the factory and the factory returns the error \<open>e\<close>,
  \<open>Next\<close> returns \<open>e\<close> itself, and the pool (its channel and \<open>curSize\<close>) and the
  issued Items are as they were when \<open>addNew\<close> began. First for any schedule, where the
  call invokes the factory when it found the channel empty and \<open>addNew\<close> finds
  \<open>curSize < maxSize\<close>; then for a call during which no other caller acts, where the
  factory has been invoked exactly when the count of invocations has changed.
\<close>

theorem factory_error_propagates:
  "(length (buf (items (pool w))) < 1
      \<and> \<not> maxSize (pool (others w (before_addNew s)))
            \<le>s curSize (pool (others w (before_addNew s)))
      \<and> newFn (pool (others w (before_addNew s))) (ext (others w (before_addNew s)))
          = ((v, Some e), x') \<longrightarrow>
        Next s w =
          (Inl (Returned e),
           (others w (before_addNew s))
             \<lparr>ext := x',
              factory_calls := Suc (factory_calls (others w (before_addNew s)))\<rparr>))
   \<and> (factory_calls (snd (Next (alone timer) w)) \<noteq> factory_calls w
      \<and> newFn (pool w) (ext w) = ((v, Some e), x') \<longrightarrow>
        fst (Next (alone timer) w) = Inl (Returned e)
        \<and> pool (snd (Next (alone timer) w)) = pool w
        \<and> issued (snd (Next (alone timer) w)) = issued w
        \<and> factory_calls (snd (Next (alone timer) w)) = Suc (factory_calls w))"
proof (intro conjI impI)
  let ?w0 = "others w (before_addNew s)"
  assume a: "length (buf (items (pool w))) < 1
      \<and> \<not> maxSize (pool ?w0) \<le>s curSize (pool ?w0)
      \<and> newFn (pool ?w0) (ext ?w0) = ((v, Some e), x')"
  then have "addNew ?w0
      = (Some (Returned e), ?w0\<lparr>ext := x', factory_calls := Suc (factory_calls ?w0)\<rparr>)"
    by (simp add: addNew_error)
  then show "Next s w
      = (Inl (Returned e), ?w0\<lparr>ext := x', factory_calls := Suc (factory_calls ?w0)\<rparr>)"
    using a by (simp add: Next_def Let_def)
next
  assume a: "factory_calls (snd (Next (alone timer) w)) \<noteq> factory_calls w
      \<and> newFn (pool w) (ext w) = ((v, Some e), x')"
  then have "buf (items (pool w)) = []" and nf: "\<not> maxSize (pool w) \<le>s curSize (pool w)"
    using Next_alone_calls [of timer w] by simp_all
  moreover have "addNew w
      = (Some (Returned e), w\<lparr>ext := x', factory_calls := Suc (factory_calls w)\<rparr>)"
    using a nf by (simp add: addNew_error)
  ultimately have n: "Next (alone timer) w
      = (Inl (Returned e), w\<lparr>ext := x', factory_calls := Suc (factory_calls w)\<rparr>)"
    by (simp add: Next_alone)
  show "fst (Next (alone timer) w) = Inl (Returned e)"
    and "pool (snd (Next (alone timer) w)) = pool w"
    and "issued (snd (Next (alone timer) w)) = issued w"
    and "factory_calls (snd (Next (alone timer) w)) = Suc (factory_calls w)"
    by (simp_all add: n)
qed

lemma failing_pool_New:
  "New 16 \<lparr>opt_New = Some failing, opt_Size = 1, opt_Timeout = 100000000\<rparr> = Inr failing_pool"
  by (simp add: New_def failing_pool_def word_sle_eq)

lemma failing_Next:
  "Next (alone timer) (start failing_pool 0) =
     (Inl (Returned errBasic), (start failing_pool 0)\<lparr>factory_calls := 1\<rparr>)"
  by (simp add: start_def failing_pool_def Next_alone addNew_def failing_def word_sle_eq
      Let_def)

theorem factory_error_propagates_witness:
  "factory_calls (snd (Next (alone False) (start failing_pool 0)))
      \<noteq> factory_calls (start failing_pool 0)
   \<and> newFn (pool (start failing_pool 0)) (ext (start failing_pool 0))
        = ((None, Some errBasic), 0)
   \<and> fst (Next (alone False) (start failing_pool 0)) = Inl (Returned errBasic)
   \<and> curSize (pool (snd (Next (alone False) (start failing_pool 0)))) = 0
   \<and> buf (items (pool (snd (Next (alone False) (start failing_pool 0))))) = []
   \<and> fst (Next \<lparr>before_addNew = [SelectAct False], before_select = [], timer_wins = True\<rparr>
            (start failing_pool 0)) = Inl (Returned errBasic)"
proof -
  let ?w = "start failing_pool 0"
  let ?s = "\<lparr>before_addNew = [SelectAct False], before_select = [], timer_wins = True\<rparr>"
  have a: "factory_calls (snd (Next (alone False) ?w)) \<noteq> factory_calls ?w"
    by (simp add: failing_Next) (simp add: start_def)
  have b: "newFn (pool ?w) (ext ?w) = ((None, Some errBasic), 0)"
    by (simp add: start_def failing_pool_def failing_def)
  have c: "curSize (pool ?w) = 0" "buf (items (pool ?w)) = []"
    by (simp_all add: start_def failing_pool_def)
  have o: "others ?w (before_addNew ?s) = ?w"
    by (simp add: select_def start_def failing_pool_def Let_def)
  have d: "length (buf (items (pool ?w))) < 1
      \<and> \<not> maxSize (pool (others ?w (before_addNew ?s)))
            \<le>s curSize (pool (others ?w (before_addNew ?s)))
      \<and> newFn (pool (others ?w (before_addNew ?s))) (ext (others ?w (before_addNew ?s)))
          = ((None, Some errBasic), 0)"
    unfolding o using b c by (simp add: start_def failing_pool_def word_sle_eq)
  have t1: "fst (Next (alone False) ?w) = Inl (Returned errBasic)
        \<and> pool (snd (Next (alone False) ?w)) = pool ?w"
    using factory_error_propagates [of ?w "alone False" None errBasic 0 False] a b by blast
  have t2: "fst (Next ?s ?w) = Inl (Returned errBasic)"
    using factory_error_propagates [of ?w ?s None errBasic 0 False] d by simp
  show ?thesis
    using a b c t1 t2 by simp
qed




lemma demo_two_out_run:
  "demo_two_out = run (start demo_pool 0) [NextOp (alone False), NextOp (alone False)]"
  by (simp add: demo_two_out_def start_def demo_pool_def Next_alone addNew_def select_def
      chan_send_def create_def word_sle_eq Let_def)





subsection \<open>The Items\<close>

lemma act_issued:
  "issued (act_step w a) = issued w
   \<or> (\<exists>v. issued (act_step w a) = issued w @ [\<lparr>val = v, closed = False\<rparr>])
   \<or> (\<exists>k. (a = RestoreAct k \<or> a = RemoveAct k) \<and> k < length (issued w)
         \<and> issued (act_step w a) = (issued w)[k := (issued w ! k)\<lparr>closed := True\<rparr>])"
  by (cases a)
    (auto simp: addNew_def select_def Restore_def restore_def Remove_def remove_def Let_def
      split: prod.splits option.splits sum.splits list.splits)

lemma act_keeps_item:
  assumes "h < length (issued w)"
  shows "h < length (issued (act_step w a))
     \<and> val (issued (act_step w a) ! h) = val (issued w ! h)
     \<and> (closed (issued w ! h) \<longrightarrow> closed (issued (act_step w a) ! h))
     \<and> (a \<noteq> RestoreAct h \<and> a \<noteq> RemoveAct h \<longrightarrow>
          closed (issued (act_step w a) ! h) = closed (issued w ! h))"
  using act_issued [of w a] assms
  by (auto simp: nth_append nth_list_update)

lemma others_keeps_item:
  assumes "h < length (issued w)"
  shows "h < length (issued (others w as))
     \<and> val (issued (others w as) ! h) = val (issued w ! h)
     \<and> (closed (issued w ! h) \<longrightarrow> closed (issued (others w as) ! h))
     \<and> (RestoreAct h \<notin> set as \<and> RemoveAct h \<notin> set as \<longrightarrow>
          closed (issued (others w as) ! h) = closed (issued w ! h))"
  using assms
proof (induction as arbitrary: w)
  case Nil
  then show ?case by simp
next
  case (Cons a as)
  have k: "h < length (issued (act_step w a))
     \<and> val (issued (act_step w a) ! h) = val (issued w ! h)
     \<and> (closed (issued w ! h) \<longrightarrow> closed (issued (act_step w a) ! h))
     \<and> (a \<noteq> RestoreAct h \<and> a \<noteq> RemoveAct h \<longrightarrow>
          closed (issued (act_step w a) ! h) = closed (issued w ! h))"
    by (rule act_keeps_item [OF Cons.prems])
  then show ?case
    using Cons.IH [of "act_step w a"] by auto
qed

lemma run_keeps_item:
  assumes "h < length (issued w)"
  shows "h < length (issued (run w ops))
     \<and> val (issued (run w ops) ! h) = val (issued w ! h)
     \<and> (closed (issued w ! h) \<longrightarrow> closed (issued (run w ops) ! h))
     \<and> (RestoreAct h \<notin> set (acts_of ops) \<and> RemoveAct h \<notin> set (acts_of ops) \<longrightarrow>
          closed (issued (run w ops) ! h) = closed (issued w ! h))"
proof -
  obtain as where as: "run w ops = others w as" "set as \<subseteq> set (acts_of ops)"
    using run_state [of w ops] by auto
  show ?thesis
    using others_keeps_item [OF assms, of as] as by auto
qed

lemma select_returns:
  assumes "select timer u = (Inr h, u1)"
  shows "h < length (issued u1) \<and> \<not> closed (issued u1 ! h)"
  using assms
  by (auto simp: select_def Let_def nth_append split: list.splits if_splits)

lemma Next_returns:
  assumes "Next s w = (Inr h, w1)"
  shows "h < length (issued w1) \<and> \<not> closed (issued w1 ! h)"
proof -
  have "\<exists>u. select (timer_wins s) u = (Inr h, w1)"
    using assms
    by (auto simp: Next_def Let_def split: if_splits prod.splits option.splits)
  then show ?thesis using select_returns by blast
qed

text \<open>
  C2. Take an Item that \<open>Next\<close> has returned from a pool built by \<open>New\<close>, under any
  schedule, and let any operations follow in which nobody, this caller or another,
  disposes of it. Then \<open>Restore\<close> on it returns normally and queues its value, and so
  does \<open>Remove\<close>, lowering \<open>curSize\<close>. After either one, and whatever operations come in
  between, both \<open>Restore\<close> and \<open>Remove\<close> on the same Item panic with "result: already
  closed" and change nothing.
\<close>

theorem disposition_exactly_once:
  assumes "New lim opts = Inr p"
    and "Next s (run (start p x) ops) = (Inr h, w1)"
    and "RestoreAct h \<notin> set (acts_of ops1)" and "RemoveAct h \<notin> set (acts_of ops1)"
    and "w2 = run w1 ops1"
  shows "Restore h w2 =
      (None, w2\<lparr>pool := (pool w2)\<lparr>items := (items (pool w2))
                   \<lparr>buf := buf (items (pool w2)) @ [val (issued w2 ! h)]\<rparr>\<rparr>,
                issued := (issued w2)[h := (issued w2 ! h)\<lparr>closed := True\<rparr>]\<rparr>)
     \<and> Remove h w2 =
      (None, w2\<lparr>pool := (pool w2)\<lparr>curSize := curSize (pool w2) - 1\<rparr>,
                issued := (issued w2)[h := (issued w2 ! h)\<lparr>closed := True\<rparr>]\<rparr>)
     \<and> (\<forall>w3 ops2. w3 = snd (Restore h w2) \<or> w3 = snd (Remove h w2) \<longrightarrow>
          Restore h (run w3 ops2) = (Some (Panicked ''result: already closed''), run w3 ops2)
          \<and> Remove h (run w3 ops2) = (Some (Panicked ''result: already closed''), run w3 ops2))"
proof -
  let ?w0 = "run (start p x) ops"
  have i0: "pool_inv ?w0"
    by (rule run_inv [OF New_inv [OF assms(1)]])
  have i1: "pool_inv w1"
    using Next_inv [OF i0, of s] assms(2) by simp
  have h1: "h < length (issued w1) \<and> \<not> closed (issued w1 ! h)"
    using assms(2) by (rule Next_returns)
  have i2: "pool_inv w2"
    using run_inv [OF i1, of ops1] assms(5) by simp
  have h2: "h < length (issued w2)" "\<not> closed (issued w2 ! h)"
    using run_keeps_item [of h w1 ops1] h1 assms(3,4,5) by simp_all
  have a: "Restore h w2 =
      (None, w2\<lparr>pool := (pool w2)\<lparr>items := (items (pool w2))
                   \<lparr>buf := buf (items (pool w2)) @ [val (issued w2 ! h)]\<rparr>\<rparr>,
                issued := (issued w2)[h := (issued w2 ! h)\<lparr>closed := True\<rparr>]\<rparr>)"
    using i2 h2 by (rule Restore_ok)
  have b: "Remove h w2 =
      (None, w2\<lparr>pool := (pool w2)\<lparr>curSize := curSize (pool w2) - 1\<rparr>,
                issued := (issued w2)[h := (issued w2 ! h)\<lparr>closed := True\<rparr>]\<rparr>)"
    using h2 by (rule Remove_ok)
  have c: "Restore h (run w3 ops2) = (Some (Panicked ''result: already closed''), run w3 ops2)
          \<and> Remove h (run w3 ops2) = (Some (Panicked ''result: already closed''), run w3 ops2)"
    if "w3 = snd (Restore h w2) \<or> w3 = snd (Remove h w2)" for w3 ops2
  proof -
    have "h < length (issued w3) \<and> closed (issued w3 ! h)"
      using that a b h2 by auto
    then have "h < length (issued (run w3 ops2)) \<and> closed (issued (run w3 ops2) ! h)"
      using run_keeps_item [of h w3 ops2] by simp
    then show ?thesis
      using dispose_again [of h "run w3 ops2"] by simp
  qed
  show ?thesis
    using a b c by blast
qed

lemma demo_second_Next: "demo_two_out = run demo_one_out [NextOp (alone False)]"
  by (simp add: demo_two_out_def demo_one_out_def Next_alone addNew_def select_def
      chan_send_def create_def word_sle_eq Let_def)

theorem disposition_exactly_once_witness:
  "Next (alone False) (run (start demo_pool 0) []) = (Inr 0, demo_one_out)
   \<and> fst (Restore 0 demo_two_out) = None
   \<and> fst (Remove 0 demo_two_out) = None
   \<and> fst (Restore 0 (snd (Restore 0 demo_two_out))) = Some (Panicked ''result: already closed'')
   \<and> fst (Remove 0 (snd (Restore 0 demo_two_out))) = Some (Panicked ''result: already closed'')
   \<and> fst (Restore 0 (snd (Remove 0 demo_two_out))) = Some (Panicked ''result: already closed'')
   \<and> fst (Remove 0 (snd (Remove 0 demo_two_out))) = Some (Panicked ''result: already closed'')"
proof -
  have n: "Next (alone False) (run (start demo_pool 0) []) = (Inr 0, demo_one_out)"
    by (simp add: demo_first_Next demo_one_out_def)
  have o: "RestoreAct 0 \<notin> set (acts_of [NextOp (alone False)])"
    "RemoveAct 0 \<notin> set (acts_of [NextOp (alone False)])"
    by (simp_all add: acts_of_def alone_def)
  note t = disposition_exactly_once [OF demo_pool_New n o demo_second_Next]
  have first: "fst (Restore 0 demo_two_out) = None" "fst (Remove 0 demo_two_out) = None"
    using t by simp_all
  have again: "Restore 0 (run w3 []) = (Some (Panicked ''result: already closed''), run w3 [])
      \<and> Remove 0 (run w3 []) = (Some (Panicked ''result: already closed''), run w3 [])"
    if "w3 = snd (Restore 0 demo_two_out) \<or> w3 = snd (Remove 0 demo_two_out)" for w3
    using t that by blast
  show ?thesis
    using n first again [of "snd (Restore 0 demo_two_out)"]
      again [of "snd (Remove 0 demo_two_out)"]
    by simp
qed

subsection \<open>Reuse at full capacity\<close>

lemma open_items_update:
  "{i \<in> set (xs[k := (xs ! k)\<lparr>closed := True\<rparr>]). \<not> closed i} \<subseteq> {i \<in> set xs. \<not> closed i}"
  using set_update_subset_insert [of xs k "(xs ! k)\<lparr>closed := True\<rparr>"] by auto

lemma select_reuse:
  assumes "pool_inv w" and "live_values w \<subseteq> L"
  shows "live_values (snd (select timer w)) \<subseteq> L
     \<and> (\<forall>i. length (issued w) \<le> i \<and> i < length (issued (snd (select timer w)))
            \<longrightarrow> val (issued (snd (select timer w)) ! i) \<in> L)"
proof (cases timer)
  case True
  then show ?thesis using assms(2) by (auto simp: select_timer)
next
  case False
  show ?thesis
  proof (cases "buf (items (pool w))")
    case Nil
    have "select timer w = (Inl (Returned ErrTimeout), w)"
      using Nil assms(1) by (simp add: select_empty pool_inv_def)
    then show ?thesis using assms(2) by auto
  next
    case (Cons v vs)
    have v: "v \<in> L" and vs: "set vs \<subseteq> L"
      and a: "val ` {i \<in> set (issued w). \<not> closed i} \<subseteq> L"
      using assms(2) Cons by (auto simp: live_values_def)
    have l: "live_values (snd (select False w)) \<subseteq> L"
      using v vs a by (auto simp: select_idle [OF Cons] live_values_def)
    have n: "\<forall>i. length (issued w) \<le> i \<and> i < length (issued (snd (select False w)))
            \<longrightarrow> val (issued (snd (select False w)) ! i) \<in> L"
      using v by (auto simp: select_idle [OF Cons] nth_append)
    show ?thesis
      using l n False by simp
  qed
qed

lemma Restore_reuse:
  assumes "pool_inv w" and "live_values w \<subseteq> L"
  shows "live_values (snd (Restore k w)) \<subseteq> L
     \<and> length (issued (snd (Restore k w))) = length (issued w)"
proof (cases "k < length (issued w) \<and> \<not> closed (issued w ! k)")
  case True
  then have "issued w ! k \<in> {i \<in> set (issued w). \<not> closed i}" by simp
  then have "val (issued w ! k) \<in> L"
    using assms(2) by (auto simp: live_values_def)
  then have "live_values (snd (Restore k w)) \<subseteq> L"
    using assms(2) open_items_update [of "issued w" k] True
    by (auto simp: Restore_ok [OF assms(1)] live_values_def)
  then show ?thesis
    using True by (simp add: Restore_ok [OF assms(1)])
next
  case False
  then show ?thesis
    using assms(2) dispose_again(1) [of k w] dispose_unknown(1) [of w k]
    by (cases "k < length (issued w)") auto
qed

lemma act_reuse:
  assumes "pool_inv w" and "maxSize (pool w) \<le>s curSize (pool w)"
    and "live_values w \<subseteq> L" and "\<forall>k. a \<noteq> RemoveAct k"
  shows "factory_calls (act_step w a) = factory_calls w
     \<and> curSize (pool (act_step w a)) = curSize (pool w)
     \<and> live_values (act_step w a) \<subseteq> L
     \<and> (\<forall>i. length (issued w) \<le> i \<and> i < length (issued (act_step w a))
            \<longrightarrow> val (issued (act_step w a) ! i) \<in> L)"
proof (cases a)
  case AddNewAct
  then show ?thesis using assms(2,3) by (auto simp: addNew_full)
next
  case (SelectAct timer)
  then show ?thesis
    using select_reuse [OF assms(1,3), of timer] select_pool [of timer w] by simp
next
  case (RestoreAct k)
  then show ?thesis
    using Restore_reuse [OF assms(1,3), of k] Restore_calls [of k w] by auto
next
  case (RemoveAct k)
  then show ?thesis using assms(4) by simp
qed

lemma others_reuse:
  assumes "pool_inv w" and "maxSize (pool w) \<le>s curSize (pool w)"
    and "live_values w \<subseteq> L" and "\<forall>k. RemoveAct k \<notin> set as"
  shows "factory_calls (others w as) = factory_calls w
     \<and> (\<forall>i. length (issued w) \<le> i \<and> i < length (issued (others w as))
            \<longrightarrow> val (issued (others w as) ! i) \<in> L)"
  using assms
proof (induction as arbitrary: w)
  case Nil
  then show ?case by auto
next
  case (Cons a as)
  let ?w1 = "act_step w a"
  have na: "\<forall>k. a \<noteq> RemoveAct k" and nas: "\<forall>k. RemoveAct k \<notin> set as"
    using Cons.prems(4) by auto
  have st: "factory_calls ?w1 = factory_calls w"
    "curSize (pool ?w1) = curSize (pool w)" "live_values ?w1 \<subseteq> L"
    "\<forall>i. length (issued w) \<le> i \<and> i < length (issued ?w1) \<longrightarrow> val (issued ?w1 ! i) \<in> L"
    using act_reuse [OF Cons.prems(1,2,3) na] by simp_all
  have i1: "pool_inv ?w1"
    by (rule act_inv [OF Cons.prems(1)])
  have f1: "maxSize (pool ?w1) \<le>s curSize (pool ?w1)"
    using Cons.prems(2) st(2) act_config [of w a] by simp
  have ih: "factory_calls (others ?w1 as) = factory_calls ?w1"
    "\<forall>i. length (issued ?w1) \<le> i \<and> i < length (issued (others ?w1 as))
            \<longrightarrow> val (issued (others ?w1 as) ! i) \<in> L"
    using Cons.IH [OF i1 f1 st(3) nas] by simp_all
  have "val (issued (others ?w1 as) ! i) \<in> L"
    if "length (issued w) \<le> i" and "i < length (issued (others ?w1 as))" for i
  proof (cases "i < length (issued ?w1)")
    case True
    then have "val (issued (others ?w1 as) ! i) = val (issued ?w1 ! i)"
      using others_keeps_item [of i ?w1 as] by simp
    then show ?thesis using st(4) that(1) True by simp
  next
    case False
    then show ?thesis using ih(2) that(2) by simp
  qed
  then show ?case
    using ih(1) st(1) by simp
qed

text \<open>
  C7. Once \<open>curSize\<close> has reached \<open>maxSize\<close>, no sequence of \<open>Next\<close> and \<open>Restore\<close>
  calls (on any Items, in any order, under any schedules that contain no \<open>Remove\<close>)
  invokes the factory, and every Item that is handed out in such a sequence, to this
  caller or to another, holds a value that was idle or checked out when the sequence
  began.
\<close>

theorem full_pool_reuses_values:
  assumes "New lim opts = Inr p" and "w = run (start p x) ops"
    and "maxSize (pool w) \<le>s curSize (pool w)"
    and "\<forall>k. RemoveAct k \<notin> set (acts_of ops1)"
  shows "factory_calls (run w ops1) = factory_calls w
     \<and> (\<forall>i. length (issued w) \<le> i \<and> i < length (issued (run w ops1))
            \<longrightarrow> val (issued (run w ops1) ! i) \<in> live_values w)"
proof -
  have i: "pool_inv w"
    using run_inv [OF New_inv [OF assms(1)], of x ops] assms(2) by simp
  obtain as where as: "run w ops1 = others w as" "set as \<subseteq> set (acts_of ops1)"
    using run_state [of w ops1] by auto
  have "\<forall>k. RemoveAct k \<notin> set as"
    using as(2) assms(4) by auto
  then show ?thesis
    using others_reuse [OF i assms(3) subset_refl, of as] as(1) by simp
qed

lemma demo_cycles:
  "run demo_two_out
     [RestoreOp 0, NextOp (alone False), RestoreOp 1, RestoreOp 2, NextOp (alone False),
      NextOp (alone False), NextOp (alone False)] =
     \<lparr>pool = \<lparr>items = \<lparr>buf = [], cap = 2, chan_closed = False\<rparr>, newFn = create,
               maxSize = 2, curSize = 2, timeout = 30 * Second\<rparr>,
       issued = [\<lparr>val = Some (Value 0 None), closed = True\<rparr>,
                 \<lparr>val = Some (Value 1 None), closed = True\<rparr>,
                 \<lparr>val = Some (Value 0 None), closed = True\<rparr>,
                 \<lparr>val = Some (Value 1 None), closed = False\<rparr>,
                 \<lparr>val = Some (Value 0 None), closed = False\<rparr>],
       ext = 2, factory_calls = 2, close_log = []\<rparr>"
  by (simp add: demo_two_out_def Next_alone addNew_def select_def chan_send_def
      Restore_def restore_def word_sle_eq Let_def)

theorem full_pool_reuses_values_witness:
  "maxSize (pool demo_two_out) \<le>s curSize (pool demo_two_out)
   \<and> factory_calls
       (run demo_two_out
          [RestoreOp 0, NextOp (alone False), RestoreOp 1, RestoreOp 2, NextOp (alone False),
           NextOp (alone False), NextOp (alone False)])
      = 2
   \<and> val (issued
       (run demo_two_out
          [RestoreOp 0, NextOp (alone False), RestoreOp 1, RestoreOp 2, NextOp (alone False),
           NextOp (alone False), NextOp (alone False)])
         ! 4) \<in> {Some (Value 0 None), Some (Value 1 None)}"
proof -
  let ?ops = "[RestoreOp 0, NextOp (alone False), RestoreOp 1, RestoreOp 2,
               NextOp (alone False), NextOp (alone False), NextOp (alone False)]"
  have f: "maxSize (pool demo_two_out) \<le>s curSize (pool demo_two_out)"
    by (simp add: demo_two_out_def)
  have n: "\<forall>k. RemoveAct k \<notin> set (acts_of ?ops)"
    by (simp add: acts_of_def alone_def)
  have l: "live_values demo_two_out = {Some (Value 0 None), Some (Value 1 None)}"
    by (auto simp: live_values_def demo_two_out_def)
  have c: "factory_calls demo_two_out = 2" "length (issued demo_two_out) = 2"
    by (simp_all add: demo_two_out_def)
  note t = full_pool_reuses_values [OF demo_pool_New demo_two_out_run f n]
  have "length (issued (run demo_two_out ?ops)) = 5"
    unfolding demo_cycles by simp
  then have "val (issued (run demo_two_out ?ops) ! 4) \<in> live_values demo_two_out"
    using t c(2) by simp
  then show ?thesis
    using t f l c(1) by simp
qed

subsection \<open>Shutdown\<close>

lemma drain_clean:
  assumes "\<forall>v \<in> set vs. \<forall>e. closer cl v \<noteq> Some (Some e)"
  shows "drain cl vs = (None, [], filter (\<lambda>v. closer cl v \<noteq> None) vs)"
  using assms
proof (induction vs)
  case Nil
  show ?case by simp
next
  case (Cons v vs)
  then have ih: "drain cl vs = (None, [], filter (\<lambda>v. closer cl v \<noteq> None) vs)"
    by simp
  show ?case
  proof (cases "closer cl v")
    case None
    then show ?thesis using ih by simp
  next
    case (Some r)
    then have "r = None" using Cons.prems by (cases r) auto
    then show ?thesis using Some ih by simp
  qed
qed

lemma drain_fail:
  assumes "\<forall>u \<in> set pre. \<forall>e. closer cl u \<noteq> Some (Some e)"
    and "closer cl v = Some (Some e)"
  shows "drain cl (pre @ v # post)
         = (Some e, post, filter (\<lambda>u. closer cl u \<noteq> None) pre @ [v])"
  using assms(1)
proof (induction pre)
  case Nil
  show ?case using assms(2) by simp
next
  case (Cons u pre)
  then have ih: "drain cl (pre @ v # post)
         = (Some e, post, filter (\<lambda>u. closer cl u \<noteq> None) pre @ [v])"
    by simp
  show ?case
  proof (cases "closer cl u")
    case None
    then show ?thesis using ih by simp
  next
    case (Some r)
    then have "r = None" using Cons.prems by (cases r) auto
    then show ?thesis using Some ih by simp
  qed
qed

text \<open>
  C4. \<open>Close\<close> on a pool that is not yet closed closes the channel and takes the idle
  values out in order. If no idle value has a \<open>Close\<close> method that returns an error, the
  channel ends up empty, the method has been invoked on exactly the values that have it,
  in order, and \<open>Close\<close> returns nil. Otherwise, with \<open>v\<close> the first value whose method
  returns an error \<open>e\<close>, \<open>Close\<close> returns \<open>e\<close>; the method has been invoked on the values
  before \<open>v\<close> that have it and on \<open>v\<close>, and the values after \<open>v\<close> are still in the
  channel, untouched.
\<close>

theorem Close_stops_at_first_error:
  assumes "\<not> chan_closed (items (pool w))"
  shows "((\<forall>v \<in> set (buf (items (pool w))). \<forall>e. closer cl v \<noteq> Some (Some e)) \<longrightarrow>
            Close cl w =
              (None,
               w\<lparr>pool := (pool w)\<lparr>items := (items (pool w))\<lparr>buf := [], chan_closed := True\<rparr>\<rparr>,
                 close_log := close_log w
                    @ filter (\<lambda>v. closer cl v \<noteq> None) (buf (items (pool w)))\<rparr>))
     \<and> (buf (items (pool w)) = pre @ v # post
          \<and> (\<forall>u \<in> set pre. \<forall>e. closer cl u \<noteq> Some (Some e))
          \<and> closer cl v = Some (Some e) \<longrightarrow>
            Close cl w =
              (Some (Returned e),
               w\<lparr>pool := (pool w)\<lparr>items := (items (pool w))\<lparr>buf := post, chan_closed := True\<rparr>\<rparr>,
                 close_log := close_log w @ filter (\<lambda>u. closer cl u \<noteq> None) pre @ [v]\<rparr>))"
proof (intro conjI impI)
  assume "\<forall>v \<in> set (buf (items (pool w))). \<forall>e. closer cl v \<noteq> Some (Some e)"
  then have "drain cl (buf (items (pool w)))
      = (None, [], filter (\<lambda>v. closer cl v \<noteq> None) (buf (items (pool w))))"
    by (rule drain_clean)
  then show "Close cl w =
      (None,
       w\<lparr>pool := (pool w)\<lparr>items := (items (pool w))\<lparr>buf := [], chan_closed := True\<rparr>\<rparr>,
         close_log := close_log w @ filter (\<lambda>v. closer cl v \<noteq> None) (buf (items (pool w)))\<rparr>)"
    using assms by (simp add: Close_def Let_def)
next
  assume a: "buf (items (pool w)) = pre @ v # post
          \<and> (\<forall>u \<in> set pre. \<forall>e. closer cl u \<noteq> Some (Some e))
          \<and> closer cl v = Some (Some e)"
  then have "drain cl (pre @ v # post)
      = (Some e, post, filter (\<lambda>u. closer cl u \<noteq> None) pre @ [v])"
    by (simp add: drain_fail)
  then show "Close cl w =
      (Some (Returned e),
       w\<lparr>pool := (pool w)\<lparr>items := (items (pool w))\<lparr>buf := post, chan_closed := True\<rparr>\<rparr>,
         close_log := close_log w @ filter (\<lambda>u. closer cl u \<noteq> None) pre @ [v]\<rparr>)"
    using assms a by (simp add: Close_def Let_def)
qed

theorem Close_stops_at_first_error_witness:
  "Close value_Close (shelf [Some (Plain ''item''), None, Some (Value 0 None)])
     = (None,
        (shelf [Some (Plain ''item''), None, Some (Value 0 None)])
          \<lparr>pool := (pool (shelf [Some (Plain ''item''), None, Some (Value 0 None)]))
             \<lparr>items := \<lparr>buf = [], cap = 4, chan_closed = True\<rparr>\<rparr>,
           close_log := [Some (Value 0 None)]\<rparr>)
   \<and> Close value_Close
       (shelf [Some (Plain ''item''), Some (Value 0 None), Some (Value 1 (Some errBasic)),
               Some (Value 2 None)])
     = (Some (Returned errBasic),
        (shelf [Some (Plain ''item''), Some (Value 0 None), Some (Value 1 (Some errBasic)),
                Some (Value 2 None)])
          \<lparr>pool := (pool (shelf [Some (Plain ''item''), Some (Value 0 None),
                                 Some (Value 1 (Some errBasic)), Some (Value 2 None)]))
             \<lparr>items := \<lparr>buf = [Some (Value 2 None)], cap = 4, chan_closed = True\<rparr>\<rparr>,
           close_log := [Some (Value 0 None), Some (Value 1 (Some errBasic))]\<rparr>)"
proof -
  let ?a = "shelf [Some (Plain ''item''), None, Some (Value 0 None)]"
  let ?b = "shelf [Some (Plain ''item''), Some (Value 0 None), Some (Value 1 (Some errBasic)),
                   Some (Value 2 None)]"
  have oa: "\<not> chan_closed (items (pool ?a))" and ob: "\<not> chan_closed (items (pool ?b))"
    by (simp_all add: shelf_def)
  have ca: "\<forall>v \<in> set (buf (items (pool ?a))). \<forall>e. closer value_Close v \<noteq> Some (Some e)"
    by (simp add: shelf_def closer_def value_Close_def)
  have cb: "buf (items (pool ?b))
        = [Some (Plain ''item''), Some (Value 0 None)] @ Some (Value 1 (Some errBasic))
            # [Some (Value 2 None)]
      \<and> (\<forall>u \<in> set [Some (Plain ''item''), Some (Value 0 None)].
            \<forall>e. closer value_Close u \<noteq> Some (Some e))
      \<and> closer value_Close (Some (Value 1 (Some errBasic))) = Some (Some errBasic)"
    by (simp add: shelf_def closer_def value_Close_def)
  have ta: "Close value_Close ?a =
      (None,
       ?a\<lparr>pool := (pool ?a)\<lparr>items := (items (pool ?a))\<lparr>buf := [], chan_closed := True\<rparr>\<rparr>,
          close_log := close_log ?a
            @ filter (\<lambda>v. closer value_Close v \<noteq> None) (buf (items (pool ?a)))\<rparr>)"
    using Close_stops_at_first_error [OF oa, of value_Close] ca by blast
  have tb: "Close value_Close ?b =
      (Some (Returned errBasic),
       ?b\<lparr>pool := (pool ?b)\<lparr>items := (items (pool ?b))
              \<lparr>buf := [Some (Value 2 None)], chan_closed := True\<rparr>\<rparr>,
          close_log := close_log ?b
            @ filter (\<lambda>u. closer value_Close u \<noteq> None)
                [Some (Plain ''item''), Some (Value 0 None)]
            @ [Some (Value 1 (Some errBasic))]\<rparr>)"
    using Close_stops_at_first_error [OF ob, of value_Close] cb by blast
  show ?thesis
    unfolding ta tb by (simp add: shelf_def closer_def value_Close_def)
qed

subsection \<open>The timeout error\<close>

lemma addNew_Returned:
  assumes "fst (addNew u) = Some (Returned e)"
  shows "\<not> maxSize (pool u) \<le>s curSize (pool u)
     \<and> snd (fst (newFn (pool u) (ext u))) = Some e"
  using assms
  by (auto simp: addNew_def chan_send_def Let_def
      split: prod.splits option.splits if_splits)

lemma select_ErrTimeout:
  assumes "fst (select timer u) = Inl (Returned ErrTimeout)"
  shows "snd (select timer u) = u
     \<and> (timer \<or> buf (items (pool u)) = [] \<and> \<not> chan_closed (items (pool u)))"
  using assms
  by (auto simp: select_def Let_def split: list.splits if_splits)

lemma Next_ErrTimeout:
  assumes "fst (Next s w) = Inl (Returned ErrTimeout)"
  shows "length (buf (items (pool w))) < 1
       \<and> \<not> maxSize (pool (others w (before_addNew s)))
             \<le>s curSize (pool (others w (before_addNew s)))
       \<and> snd (fst (newFn (pool (others w (before_addNew s)))
                     (ext (others w (before_addNew s))))) = Some ErrTimeout
     \<or> timer_wins s
     \<or> buf (items (pool (snd (Next s w)))) = []
       \<and> \<not> chan_closed (items (pool (snd (Next s w))))"
proof -
  let ?w0 = "others w (before_addNew s)"
  obtain r w1 where a: "addNew ?w0 = (r, w1)" by (cases "addNew ?w0")
  show ?thesis
  proof (cases "length (buf (items (pool w))) < 1 \<and> r \<noteq> None")
    case True
    then obtain f where f: "r = Some f" by auto
    then have "Next s w = (Inl f, w1)"
      using True a by (simp add: Next_def Let_def)
    then have "f = Returned ErrTimeout" using assms by simp
    then have "fst (addNew ?w0) = Some (Returned ErrTimeout)"
      using a f by simp
    then show ?thesis
      using addNew_Returned [of ?w0 ErrTimeout] True by simp
  next
    case False
    then have "\<exists>u. Next s w = select (timer_wins s) u"
      using a by (cases r) (auto simp: Next_def Let_def)
    then obtain u where u: "Next s w = select (timer_wins s) u" by auto
    then have "snd (select (timer_wins s) u) = u
       \<and> (timer_wins s \<or> buf (items (pool u)) = [] \<and> \<not> chan_closed (items (pool u)))"
      using select_ErrTimeout [of "timer_wins s" u] assms by simp
    then show ?thesis using u by auto
  qed
qed

text \<open>
  C5, as stated, fails: \<open>Next\<close> returns the factory's error as it is, and nothing keeps
  a factory from returning \<open>ErrTimeout\<close> (a factory that takes its value from another
  pool and hands on that pool's error does). The call below invokes the factory, the
  factory fails, and the error that \<open>Next\<close> returns is \<open>ErrTimeout\<close>.
\<close>

theorem timeout_identity_counterexample:
  "New 16 \<lparr>opt_New = Some relaying, opt_Size = 1, opt_Timeout = 0\<rparr> = Inr relay_pool
   \<and> factory_calls (snd (Next (alone False) (start relay_pool 0)))
        = Suc (factory_calls (start relay_pool 0))
   \<and> snd (fst (newFn relay_pool 0)) = Some ErrTimeout
   \<and> fst (Next (alone False) (start relay_pool 0)) = Inl (Returned ErrTimeout)"
  by (simp add: New_def relay_pool_def start_def Next_alone addNew_def relaying_def
      word_sle_eq Let_def)

text \<open>
  C5, amended. A call of \<open>Next\<close> that finds nothing idle in a full pool, with no other
  caller acting, returns the one value \<open>ErrTimeout\<close>. A call that invokes the factory
  and gets the error \<open>e\<close> returns \<open>e\<close> unchanged (under any schedule, and in particular
  with no other caller acting), so for every \<open>e\<close> other than \<open>ErrTimeout\<close> its result
  differs from the timeout error. Conversely, when \<open>Next\<close> returns \<open>ErrTimeout\<close>, either
  this call invoked the factory and the factory returned \<open>ErrTimeout\<close> itself, or the
  call ended in its \<^verbatim>\<open>select\<close>: through the timer case, or after waiting on an open
  channel with nothing idle.
\<close>

theorem timeout_distinct_unless_relayed:
  "(buf (items (pool w)) = [] \<and> \<not> chan_closed (items (pool w))
      \<and> maxSize (pool w) \<le>s curSize (pool w) \<longrightarrow>
        Next (alone timer) w = (Inl (Returned ErrTimeout), w))
   \<and> (length (buf (items (pool w))) < 1
      \<and> \<not> maxSize (pool (others w (before_addNew s)))
            \<le>s curSize (pool (others w (before_addNew s)))
      \<and> snd (fst (newFn (pool (others w (before_addNew s)))
                    (ext (others w (before_addNew s))))) = Some e \<longrightarrow>
        fst (Next s w) = Inl (Returned e)
        \<and> (e \<noteq> ErrTimeout \<longrightarrow> fst (Next s w) \<noteq> Inl (Returned ErrTimeout)))
   \<and> (factory_calls (snd (Next (alone timer) w)) \<noteq> factory_calls w
      \<and> snd (fst (newFn (pool w) (ext w))) = Some e \<longrightarrow>
        fst (Next (alone timer) w) = Inl (Returned e)
        \<and> (e \<noteq> ErrTimeout \<longrightarrow> fst (Next (alone timer) w) \<noteq> Inl (Returned ErrTimeout)))
   \<and> (fst (Next s w) = Inl (Returned ErrTimeout) \<longrightarrow>
        length (buf (items (pool w))) < 1
          \<and> \<not> maxSize (pool (others w (before_addNew s)))
                \<le>s curSize (pool (others w (before_addNew s)))
          \<and> snd (fst (newFn (pool (others w (before_addNew s)))
                        (ext (others w (before_addNew s))))) = Some ErrTimeout
        \<or> timer_wins s
        \<or> buf (items (pool (snd (Next s w)))) = []
          \<and> \<not> chan_closed (items (pool (snd (Next s w)))))"
proof (intro conjI impI)
  assume "buf (items (pool w)) = [] \<and> \<not> chan_closed (items (pool w))
      \<and> maxSize (pool w) \<le>s curSize (pool w)"
  then show "Next (alone timer) w = (Inl (Returned ErrTimeout), w)"
    by (simp add: Next_alone addNew_full select_empty)
next
  let ?w0 = "others w (before_addNew s)"
  assume a: "length (buf (items (pool w))) < 1
      \<and> \<not> maxSize (pool ?w0) \<le>s curSize (pool ?w0)
      \<and> snd (fst (newFn (pool ?w0) (ext ?w0))) = Some e"
  obtain v x' where f: "newFn (pool ?w0) (ext ?w0) = ((v, Some e), x')"
    using a by (cases "newFn (pool ?w0) (ext ?w0)") auto
  have "addNew ?w0
      = (Some (Returned e), ?w0\<lparr>ext := x', factory_calls := Suc (factory_calls ?w0)\<rparr>)"
    using a f by (simp add: addNew_error)
  then show r: "fst (Next s w) = Inl (Returned e)"
    using a by (simp add: Next_def Let_def)
  assume "e \<noteq> ErrTimeout"
  then show "fst (Next s w) \<noteq> Inl (Returned ErrTimeout)"
    using r by simp
next
  assume a: "factory_calls (snd (Next (alone timer) w)) \<noteq> factory_calls w
      \<and> snd (fst (newFn (pool w) (ext w))) = Some e"
  obtain v x' where f: "newFn (pool w) (ext w) = ((v, Some e), x')"
    using a by (cases "newFn (pool w) (ext w)") auto
  have e: "buf (items (pool w)) = []" and nf: "\<not> maxSize (pool w) \<le>s curSize (pool w)"
    using Next_alone_calls [of timer w] a by simp_all
  have "addNew w
      = (Some (Returned e), w\<lparr>ext := x', factory_calls := Suc (factory_calls w)\<rparr>)"
    using nf f by (simp add: addNew_error)
  then show r: "fst (Next (alone timer) w) = Inl (Returned e)"
    using e by (simp add: Next_alone)
  assume "e \<noteq> ErrTimeout"
  then show "fst (Next (alone timer) w) \<noteq> Inl (Returned ErrTimeout)"
    using r by simp
next
  assume "fst (Next s w) = Inl (Returned ErrTimeout)"
  then show "length (buf (items (pool w))) < 1
          \<and> \<not> maxSize (pool (others w (before_addNew s)))
                \<le>s curSize (pool (others w (before_addNew s)))
          \<and> snd (fst (newFn (pool (others w (before_addNew s)))
                        (ext (others w (before_addNew s))))) = Some ErrTimeout
        \<or> timer_wins s
        \<or> buf (items (pool (snd (Next s w)))) = []
          \<and> \<not> chan_closed (items (pool (snd (Next s w))))"
    by (rule Next_ErrTimeout)
qed

lemma demo_two_out_Next:
  "Next (alone False) demo_two_out = (Inl (Returned ErrTimeout), demo_two_out)"
  by (simp add: demo_two_out_def Next_alone addNew_def select_def word_sle_eq Let_def)

theorem timeout_distinct_unless_relayed_witness:
  "buf (items (pool demo_two_out)) = [] \<and> \<not> chan_closed (items (pool demo_two_out))
   \<and> maxSize (pool demo_two_out) \<le>s curSize (pool demo_two_out)
   \<and> Next (alone False) demo_two_out = (Inl (Returned ErrTimeout), demo_two_out)
   \<and> \<not> timer_wins (alone False)
   \<and> buf (items (pool (snd (Next (alone False) demo_two_out)))) = []
   \<and> factory_calls (snd (Next (alone False) (start failing_pool 0)))
        \<noteq> factory_calls (start failing_pool 0)
   \<and> snd (fst (newFn (pool (start failing_pool 0)) (ext (start failing_pool 0)))) = Some errBasic
   \<and> errBasic \<noteq> ErrTimeout
   \<and> fst (Next (alone False) (start failing_pool 0)) = Inl (Returned errBasic)
   \<and> fst (Next (alone False) (start failing_pool 0)) \<noteq> Inl (Returned ErrTimeout)"
proof -
  have full: "buf (items (pool demo_two_out)) = [] \<and> \<not> chan_closed (items (pool demo_two_out))
      \<and> maxSize (pool demo_two_out) \<le>s curSize (pool demo_two_out)"
    by (simp add: demo_two_out_def)
  have t: "Next (alone False) demo_two_out = (Inl (Returned ErrTimeout), demo_two_out)"
    using timeout_distinct_unless_relayed [of demo_two_out False] full by blast
  have nt: "\<not> timer_wins (alone False)"
    by (simp add: alone_def)
  have nr: "\<not> (length (buf (items (pool demo_two_out))) < 1
          \<and> \<not> maxSize (pool (others demo_two_out (before_addNew (alone False))))
                \<le>s curSize (pool (others demo_two_out (before_addNew (alone False))))
          \<and> snd (fst (newFn (pool (others demo_two_out (before_addNew (alone False))))
                        (ext (others demo_two_out (before_addNew (alone False))))))
              = Some ErrTimeout)"
    by (simp add: alone_def demo_two_out_def)
  have em: "buf (items (pool (snd (Next (alone False) demo_two_out)))) = []"
    using timeout_distinct_unless_relayed [of demo_two_out False "alone False"] t nt nr
    by auto
  have inv: "factory_calls (snd (Next (alone False) (start failing_pool 0)))
        \<noteq> factory_calls (start failing_pool 0)
      \<and> snd (fst (newFn (pool (start failing_pool 0)) (ext (start failing_pool 0))))
        = Some errBasic"
    by (simp add: failing_Next) (simp add: start_def failing_pool_def failing_def)
  have ne: "errBasic \<noteq> ErrTimeout"
    by (simp add: errBasic_def)
  have "fst (Next (alone False) (start failing_pool 0)) = Inl (Returned errBasic)
      \<and> fst (Next (alone False) (start failing_pool 0)) \<noteq> Inl (Returned ErrTimeout)"
    using timeout_distinct_unless_relayed [of "start failing_pool 0" False _ errBasic] inv ne
    by blast
  then show ?thesis
    using full t nt em inv ne by blast
qed

subsection \<open>Construction\<close>

text \<open>
  C9. \<open>New\<close> without a factory panics, whatever the other options are. An option left at
  its zero value takes the default: size 1, timeout 30 seconds; a positive option is
  kept. \<open>Size\<close> and \<open>Timeout\<close> read the two fields, which no later operation
  (\<open>Next\<close>, \<open>Restore\<close>, \<open>Remove\<close>, \<open>Close\<close>) changes.
\<close>

theorem New_defaults:
  "(opt_New opts = None \<longrightarrow> New lim opts = Inl (Panicked ''pool: new func must not be nil''))
   \<and> (opt_New opts \<noteq> None
        \<and> (if opt_Size opts \<le>s 0 then 1 else sint (opt_Size opts)) \<le> lim \<longrightarrow>
        (\<exists>p. New lim opts = Inr p))
   \<and> (\<forall>p. New lim opts = Inr p \<longrightarrow>
        (opt_Size opts = 0 \<longrightarrow> Size p = 1)
        \<and> (opt_Timeout opts = 0 \<longrightarrow> Timeout p = 30 * Second)
        \<and> (0 <s opt_Size opts \<longrightarrow> Size p = opt_Size opts)
        \<and> (0 <s opt_Timeout opts \<longrightarrow> Timeout p = opt_Timeout opts)
        \<and> (\<forall>x ops cl.
              Size (pool (run (start p x) ops)) = Size p
              \<and> Timeout (pool (run (start p x) ops)) = Timeout p
              \<and> Size (pool (snd (Close cl (run (start p x) ops)))) = Size p
              \<and> Timeout (pool (snd (Close cl (run (start p x) ops)))) = Timeout p))"
proof -
  have a: "opt_New opts = None \<longrightarrow>
      New lim opts = Inl (Panicked ''pool: new func must not be nil'')"
    by (simp add: New_def)
  have b: "opt_New opts \<noteq> None
        \<and> (if opt_Size opts \<le>s 0 then 1 else sint (opt_Size opts)) \<le> lim \<longrightarrow>
        (\<exists>p. New lim opts = Inr p)"
    by (auto simp: New_def Let_def)
  have d: "(opt_Size opts = 0 \<longrightarrow> Size p = 1)
        \<and> (opt_Timeout opts = 0 \<longrightarrow> Timeout p = 30 * Second)
        \<and> (0 <s opt_Size opts \<longrightarrow> Size p = opt_Size opts)
        \<and> (0 <s opt_Timeout opts \<longrightarrow> Timeout p = opt_Timeout opts)"
    if "New lim opts = Inr p" for p
    using that
    by (auto simp: New_def Size_def Timeout_def Let_def word_sle_eq word_sless_alt
        split: option.splits if_splits)
  have e: "\<forall>p. New lim opts = Inr p \<longrightarrow>
        (opt_Size opts = 0 \<longrightarrow> Size p = 1)
        \<and> (opt_Timeout opts = 0 \<longrightarrow> Timeout p = 30 * Second)
        \<and> (0 <s opt_Size opts \<longrightarrow> Size p = opt_Size opts)
        \<and> (0 <s opt_Timeout opts \<longrightarrow> Timeout p = opt_Timeout opts)
        \<and> (\<forall>x ops cl.
              Size (pool (run (start p x) ops)) = Size p
              \<and> Timeout (pool (run (start p x) ops)) = Timeout p
              \<and> Size (pool (snd (Close cl (run (start p x) ops)))) = Size p
              \<and> Timeout (pool (snd (Close cl (run (start p x) ops)))) = Timeout p)"
  proof (intro allI impI)
    fix p
    assume n: "New lim opts = Inr p"
    have "\<forall>x ops cl.
              Size (pool (run (start p x) ops)) = Size p
              \<and> Timeout (pool (run (start p x) ops)) = Timeout p
              \<and> Size (pool (snd (Close cl (run (start p x) ops)))) = Size p
              \<and> Timeout (pool (snd (Close cl (run (start p x) ops)))) = Timeout p"
      by (simp add: Size_def Timeout_def Close_config run_config start_def)
    then show "(opt_Size opts = 0 \<longrightarrow> Size p = 1)
        \<and> (opt_Timeout opts = 0 \<longrightarrow> Timeout p = 30 * Second)
        \<and> (0 <s opt_Size opts \<longrightarrow> Size p = opt_Size opts)
        \<and> (0 <s opt_Timeout opts \<longrightarrow> Timeout p = opt_Timeout opts)
        \<and> (\<forall>x ops cl.
              Size (pool (run (start p x) ops)) = Size p
              \<and> Timeout (pool (run (start p x) ops)) = Timeout p
              \<and> Size (pool (snd (Close cl (run (start p x) ops)))) = Size p
              \<and> Timeout (pool (snd (Close cl (run (start p x) ops)))) = Timeout p)"
      using d [OF n] by simp
  qed
  show ?thesis
    by (intro conjI) (rule a b e)+
qed

theorem New_defaults_witness:
  "New 16 \<lparr>opt_New = None :: (tvalue, nat) factory option, opt_Size = 5, opt_Timeout = 7\<rparr>
     = Inl (Panicked ''pool: new func must not be nil'')
   \<and> (\<exists>p. New 16 \<lparr>opt_New = Some create, opt_Size = 0, opt_Timeout = 100000000\<rparr> = Inr p
          \<and> Size p = 1 \<and> Timeout p = 100000000)
   \<and> (\<exists>p. New 16 \<lparr>opt_New = Some create, opt_Size = 1, opt_Timeout = 0\<rparr> = Inr p
          \<and> Timeout p = 30 * Second)"
  using
    New_defaults [of "\<lparr>opt_New = None :: (tvalue, nat) factory option,
                       opt_Size = 5, opt_Timeout = 7\<rparr>" 16]
    New_defaults [of "\<lparr>opt_New = Some create, opt_Size = 0, opt_Timeout = 100000000\<rparr>" 16]
    New_defaults [of "\<lparr>opt_New = Some create, opt_Size = 1, opt_Timeout = 0\<rparr>" 16]
  by (auto simp: word_sless_alt word_sle_eq)

text \<open>
  C10. Every size that is zero or negative becomes 1 and every timeout that is zero or
  negative becomes 30 seconds, so the size and the timeout of a pool that \<open>New\<close> returns
  are positive.
\<close>

theorem New_coerces_nonpositive:
  "(opt_New opts \<noteq> None \<and> opt_Size opts \<le>s 0 \<and> 1 \<le> lim \<longrightarrow> (\<exists>p. New lim opts = Inr p))
   \<and> (\<forall>p. New lim opts = Inr p \<longrightarrow>
        (opt_Size opts \<le>s 0 \<longrightarrow> Size p = 1)
        \<and> (opt_Timeout opts \<le>s 0 \<longrightarrow> Timeout p = 30 * Second)
        \<and> 0 <s Size p \<and> 0 <s Timeout p)"
proof -
  have a: "opt_New opts \<noteq> None \<and> opt_Size opts \<le>s 0 \<and> 1 \<le> lim \<longrightarrow>
      (\<exists>p. New lim opts = Inr p)"
    by (auto simp: New_def Let_def)
  have b: "\<forall>p. New lim opts = Inr p \<longrightarrow>
        (opt_Size opts \<le>s 0 \<longrightarrow> Size p = 1)
        \<and> (opt_Timeout opts \<le>s 0 \<longrightarrow> Timeout p = 30 * Second)
        \<and> 0 <s Size p \<and> 0 <s Timeout p"
    using thirty_seconds_positive
    by (auto simp: New_def Size_def Timeout_def Let_def word_sless_alt word_sle_eq
        split: option.splits if_splits)
  show ?thesis using a b by blast
qed

theorem New_coerces_nonpositive_witness:
  "\<exists>p. New 16 \<lparr>opt_New = Some create, opt_Size = - 3, opt_Timeout = - 1\<rparr> = Inr p
       \<and> Size p = 1 \<and> Timeout p = 30 * Second \<and> 0 <s Size p \<and> 0 <s Timeout p"
  using New_coerces_nonpositive
    [of "\<lparr>opt_New = Some create, opt_Size = - 3, opt_Timeout = - 1\<rparr>" 16]
  by (auto simp: word_sle_eq)

end
